theory Spec2Isabelle
  imports Main "HOL-Library.Multiset"
begin

section \<open>Common ground: output stream and exceptions\<close>

text \<open>
  \<^verbatim>\<open>std::cout\<close> is modelled as the sequence of values inserted into it, in order.
  An exception or a dereference of a null pointer is a value of \<open>exn\<close>; a function that
  can end that way returns \<open>exn + 'a\<close>.
\<close>

datatype out_item = Str string | Num int | Endl

type_synonym ostream = "out_item list"

datatype exn = bad_function_call | NullDereference | UserException string

section \<open>StatusMachine.cpp\<close>

subsection \<open>States, events and the transition table\<close>

datatype State = Idle | Running | Paused | Stopped

datatype Event = Start | Pause | Resume | Stop

text \<open>\<^verbatim>\<open>static_cast<int>\<close> of a \<open>State\<close>: the enumerators count from zero.\<close>

fun State_to_int :: "State \<Rightarrow> nat" where
  "State_to_int Idle = 0"
| "State_to_int Running = 1"
| "State_to_int Paused = 2"
| "State_to_int Stopped = 3"

definition strState :: "string list" where
  "strState = [''Idle'', ''Running'', ''Paused'', ''Stopped'']"

text \<open>
  A \<^verbatim>\<open>std::map<std::tuple<State, Event>, State>\<close> is a finite partial function on
  keys. Its constructor from an initializer list inserts the listed pairs one after the
  other, as the standard libraries do; \<^verbatim>\<open>insert\<close> leaves the map as it is when the
  key is already there. The
  constructor has no failure path for a repeated key, so \<open>std_map_construct\<close> always
  ends in \<open>Inr\<close>.
\<close>

type_synonym TransitionTable = "State \<times> Event \<rightharpoonup> State"

definition std_map_insert :: "('k \<rightharpoonup> 'v) \<Rightarrow> 'k \<times> 'v \<Rightarrow> ('k \<rightharpoonup> 'v)" where
  "std_map_insert m kv = (case m (fst kv) of None \<Rightarrow> m(fst kv \<mapsto> snd kv) | Some _ \<Rightarrow> m)"

definition std_map_of_list :: "('k \<times> 'v) list \<Rightarrow> ('k \<rightharpoonup> 'v)" where
  "std_map_of_list kvs = foldl std_map_insert Map.empty kvs"

definition std_map_construct :: "('k \<times> 'v) list \<Rightarrow> exn + ('k \<rightharpoonup> 'v)" where
  "std_map_construct kvs = Inr (std_map_of_list kvs)"

definition transitionRules_init :: "((State \<times> Event) \<times> State) list" where
  "transitionRules_init =
     [((Idle, Start), Running),
      ((Running, Pause), Paused),
      ((Paused, Resume), Running),
      ((Running, Stop), Stopped),
      ((Paused, Stop), Stopped)]"

definition transitionRules :: TransitionTable where
  "transitionRules = std_map_of_list transitionRules_init"

subsection \<open>SyncStateMachine\<close>

text \<open>
  The class holds \<open>currentState\<close> and a mutex. Both member functions run their whole
  body under a \<^verbatim>\<open>lock_guard\<close>, so a call is one atomic step on \<open>currentState\<close>; the
  model is that step. The table is the global \<open>transitionRules\<close>, read by every call:
  it is passed in as \<open>rules\<close>.
\<close>

record SyncStateMachine =
  currentState :: State

definition SyncStateMachine_new :: SyncStateMachine where
  "SyncStateMachine_new = \<lparr>currentState = Idle\<rparr>"

definition SyncStateMachine_handleEvent ::
  "TransitionTable \<Rightarrow> Event \<Rightarrow> SyncStateMachine \<Rightarrow> ostream \<Rightarrow> bool \<times> SyncStateMachine \<times> ostream" where
  "SyncStateMachine_handleEvent rules event m cout =
     (let key = (currentState m, event) in
      case rules key of
        Some next \<Rightarrow>
          (True,
           m\<lparr>currentState := next\<rparr>,
           cout @ [Str ''Come in next status ['',
                   Str (strState ! State_to_int (currentState m)),
                   Str ''] -> ['',
                   Str (strState ! State_to_int next),
                   Str '']'', Endl])
      | None \<Rightarrow> (False, m, cout))"

definition SyncStateMachine_getCurrentState :: "SyncStateMachine \<Rightarrow> State" where
  "SyncStateMachine_getCurrentState m = currentState m"

text \<open>A caller firing a list of events one call after the other, keeping each result.\<close>

fun SyncStateMachine_handleEvents ::
  "TransitionTable \<Rightarrow> Event list \<Rightarrow> SyncStateMachine \<Rightarrow> ostream \<Rightarrow> bool list \<times> SyncStateMachine \<times> ostream" where
  "SyncStateMachine_handleEvents rules [] m cout = ([], m, cout)"
| "SyncStateMachine_handleEvents rules (e # es) m cout =
     (case SyncStateMachine_handleEvent rules e m cout of
        (b, m', cout') \<Rightarrow>
          (case SyncStateMachine_handleEvents rules es m' cout' of
             (bs, m'', cout'') \<Rightarrow> (b # bs, m'', cout'')))"

text \<open>\<^verbatim>\<open>worker\<close>: four calls, results dropped.\<close>

definition worker :: "TransitionTable \<Rightarrow> SyncStateMachine \<Rightarrow> ostream \<Rightarrow> SyncStateMachine \<times> ostream" where
  "worker rules sm cout = snd (SyncStateMachine_handleEvents rules [Start, Pause, Resume, Stop] sm cout)"

subsection \<open>LockFreeStateMachine\<close>

text \<open>
  \<open>currentState\<close> is a \<^verbatim>\<open>std::atomic<State>\<close>. \<^verbatim>\<open>compare_exchange_weak\<close> may fail
  although the cell holds the expected value (a spurious failure); whether the attempt
  numbered \<open>n\<close> does so is given by \<open>spurious n\<close>. The model is one thread running
  alone: no other writer changes the cell between the load and the exchange. The loop
  has no bound, so the model of \<open>handleEvent\<close> is a partial function: \<open>None\<close> is a call that
  never returns. The result carries the number of the next attempt.
\<close>

record LockFreeStateMachine =
  atomic_currentState :: State

definition LockFreeStateMachine_new :: LockFreeStateMachine where
  "LockFreeStateMachine_new = \<lparr>atomic_currentState = Idle\<rparr>"

text \<open>Returns success, the cell afterwards and \<open>expected\<close> afterwards.\<close>

definition compare_exchange_weak :: "bool \<Rightarrow> State \<Rightarrow> State \<Rightarrow> State \<Rightarrow> bool \<times> State \<times> State" where
  "compare_exchange_weak fails cell expected desired =
     (if cell = expected \<and> \<not> fails then (True, desired, expected) else (False, cell, cell))"

partial_function (option) LockFreeStateMachine_handleEvent ::
  "TransitionTable \<Rightarrow> (nat \<Rightarrow> bool) \<Rightarrow> Event \<Rightarrow> LockFreeStateMachine \<Rightarrow> nat \<Rightarrow>
     (bool \<times> LockFreeStateMachine \<times> nat) option" where
  "LockFreeStateMachine_handleEvent rules spurious event m n =
     (let expected = atomic_currentState m in
      case rules (expected, event) of
        None \<Rightarrow> Some (False, m, n)
      | Some desired \<Rightarrow>
          (case compare_exchange_weak (spurious n) (atomic_currentState m) expected desired of
             (ok, cell, expected') \<Rightarrow>
               if ok then Some (True, m\<lparr>atomic_currentState := cell\<rparr>, Suc n)
               else LockFreeStateMachine_handleEvent rules spurious event (m\<lparr>atomic_currentState := cell\<rparr>) (Suc n)))"

declare LockFreeStateMachine_handleEvent.simps [code]

definition LockFreeStateMachine_getCurrentState :: "LockFreeStateMachine \<Rightarrow> State" where
  "LockFreeStateMachine_getCurrentState m = atomic_currentState m"

fun LockFreeStateMachine_handleEvents ::
  "TransitionTable \<Rightarrow> (nat \<Rightarrow> bool) \<Rightarrow> Event list \<Rightarrow> LockFreeStateMachine \<Rightarrow> nat \<Rightarrow>
     (bool list \<times> LockFreeStateMachine \<times> nat) option" where
  "LockFreeStateMachine_handleEvents rules spurious [] m n = Some ([], m, n)"
| "LockFreeStateMachine_handleEvents rules spurious (e # es) m n =
     (case LockFreeStateMachine_handleEvent rules spurious e m n of
        None \<Rightarrow> None
      | Some (b, m', n') \<Rightarrow>
          (case LockFreeStateMachine_handleEvents rules spurious es m' n' of
             None \<Rightarrow> None
           | Some (bs, m'', n'') \<Rightarrow> Some (b # bs, m'', n'')))"

text \<open>The exchange fails spuriously only finitely often in a row.\<close>

definition eventually_succeeds :: "(nat \<Rightarrow> bool) \<Rightarrow> bool" where
  "eventually_succeeds spurious = (\<forall>n. \<exists>k. \<not> spurious (n + k))"

subsection \<open>SyncStateMachine_Callback\<close>

text \<open>
  \<open>onStateChanged\<close> is a \<^verbatim>\<open>std::function<void(State, Event, State)>\<close>: empty
  (\<open>None\<close>) after construction, or a target. A target acts on the rest of the program
  (\<open>'w\<close>) and either returns or throws. Calling an empty \<^verbatim>\<open>std::function\<close>
  throws \<^verbatim>\<open>bad_function_call\<close>.
\<close>

type_synonym 'w TransitionCallback = "(State \<Rightarrow> Event \<Rightarrow> State \<Rightarrow> 'w \<Rightarrow> exn option \<times> 'w) option"

record 'w SyncStateMachine_Callback =
  cb_currentState :: State
  onStateChanged :: "'w TransitionCallback"

definition SyncStateMachine_Callback_new :: "'w SyncStateMachine_Callback" where
  "SyncStateMachine_Callback_new = \<lparr>cb_currentState = Idle, onStateChanged = None\<rparr>"

definition setCallback :: "'w TransitionCallback \<Rightarrow> 'w SyncStateMachine_Callback \<Rightarrow> 'w SyncStateMachine_Callback" where
  "setCallback callback m = m\<lparr>onStateChanged := callback\<rparr>"

definition std_function_call ::
  "'w TransitionCallback \<Rightarrow> State \<Rightarrow> Event \<Rightarrow> State \<Rightarrow> 'w \<Rightarrow> exn option \<times> 'w" where
  "std_function_call f a e b w =
     (case f of None \<Rightarrow> (Some bad_function_call, w) | Some target \<Rightarrow> target a e b w)"

text \<open>
  What a call did to the machine and its observer, in program order: the write to
  \<open>currentState\<close> and the call of the observer with its three arguments.
\<close>

datatype step = Assign State | Invoke State Event State

text \<open>
  The result is the outcome (the returned \<open>bool\<close>, or the exception that leaves the
  call), the machine, the rest of the program and the steps taken.
\<close>

definition SyncStateMachine_Callback_handleEvent ::
  "TransitionTable \<Rightarrow> Event \<Rightarrow> 'w SyncStateMachine_Callback \<Rightarrow> 'w \<Rightarrow>
     (exn + bool) \<times> 'w SyncStateMachine_Callback \<times> 'w \<times> step list" where
  "SyncStateMachine_Callback_handleEvent rules event m w =
     (let key = (cb_currentState m, event) in
      case rules key of
        Some next \<Rightarrow>
          (let oldState = cb_currentState m;
               m' = m\<lparr>cb_currentState := next\<rparr>
           in if onStateChanged m' \<noteq> None then
                (case std_function_call (onStateChanged m') oldState event (cb_currentState m') w of
                   (None, w') \<Rightarrow>
                     (Inr True, m', w', [Assign next, Invoke oldState event (cb_currentState m')])
                 | (Some x, w') \<Rightarrow>
                     (Inl x, m', w', [Assign next, Invoke oldState event (cb_currentState m')]))
              else (Inr True, m', w, [Assign next]))
      | None \<Rightarrow> (Inr False, m, w, []))"

text \<open>
  A caller firing a list of events, going on to the next event also after an exception
  (the caller that stops at one sees a prefix of this).
\<close>

fun SyncStateMachine_Callback_handleEvents ::
  "TransitionTable \<Rightarrow> Event list \<Rightarrow> 'w SyncStateMachine_Callback \<Rightarrow> 'w \<Rightarrow>
     (exn + bool) list \<times> 'w SyncStateMachine_Callback \<times> 'w \<times> step list" where
  "SyncStateMachine_Callback_handleEvents rules [] m w = ([], m, w, [])"
| "SyncStateMachine_Callback_handleEvents rules (e # es) m w =
     (case SyncStateMachine_Callback_handleEvent rules e m w of
        (r, m', w', tr) \<Rightarrow>
          (case SyncStateMachine_Callback_handleEvents rules es m' w' of
             (rs, m'', w'', tr') \<Rightarrow> (r # rs, m'', w'', tr @ tr')))"

subsection \<open>What each class offers\<close>

text \<open>The public member functions each class declares, constructors apart.\<close>

datatype member = handleEvent | getCurrentState | setCallback_member

definition SyncStateMachine_public :: "member list" where
  "SyncStateMachine_public = [handleEvent, getCurrentState]"

definition LockFreeStateMachine_public :: "member list" where
  "LockFreeStateMachine_public = [handleEvent, getCurrentState]"

definition SyncStateMachine_Callback_public :: "member list" where
  "SyncStateMachine_Callback_public = [setCallback_member, handleEvent]"

subsection \<open>States a table lets a machine reach from \<open>Idle\<close>\<close>

inductive reachable :: "TransitionTable \<Rightarrow> State \<Rightarrow> bool" for rules :: TransitionTable where
  reachable_Idle: "reachable rules Idle"
| reachable_step: "reachable rules s \<Longrightarrow> rules (s, e) = Some t \<Longrightarrow> reachable rules t"

code_pred reachable .

section \<open>TaskScheduler.cpp\<close>

subsection \<open>Tasks\<close>

text \<open>
  The members \<^verbatim>\<open>message_\<close>, \<^verbatim>\<open>priority_\<close>, \<^verbatim>\<open>queue_\<close>, \<^verbatim>\<open>pq_\<close> and
  \<^verbatim>\<open>strategy_\<close> are written without the final underscore.

  The two task classes of the file. \<open>PrintTask\<close> keeps the base class's
  \<open>getPriority\<close>, which returns 0. A priority is a C++ \<^verbatim>\<open>int\<close>; priorities are only
  stored, printed and compared, never computed with, so they are integers here.
  \<open>execute\<close> writes to \<^verbatim>\<open>std::cout\<close>. A
  \<^verbatim>\<open>std::unique_ptr<Task>\<close> is a \<open>Task option\<close>: \<open>None\<close> is the null pointer, which is
  also what a pointer holds after it has been moved from.
\<close>

datatype Task = PrintTask string | PriorityTask string int

fun execute :: "Task \<Rightarrow> ostream \<Rightarrow> ostream" where
  "execute (PrintTask message) cout = cout @ [Str ''Executing: '', Str message, Endl]"
| "execute (PriorityTask message priority) cout =
     cout @ [Str ''[P'', Num priority, Str '']'', Str message, Endl]"

fun getPriority :: "Task \<Rightarrow> int" where
  "getPriority (PrintTask message) = 0"
| "getPriority (PriorityTask message priority) = priority"

subsection \<open>FifoStrategy\<close>

text \<open>\<open>queue\<close> is a \<^verbatim>\<open>std::queue\<close>: the front is the head of the list.\<close>

definition FifoStrategy_addTask :: "Task option list \<Rightarrow> Task option \<Rightarrow> Task option list" where
  "FifoStrategy_addTask queue task = queue @ [task]"

definition FifoStrategy_getNextTask :: "Task option list \<Rightarrow> Task option \<times> Task option list" where
  "FifoStrategy_getNextTask queue =
     (if queue = [] then (None, queue)
      else (let task = hd queue in (task, tl queue)))"

subsection \<open>PriorityStrategy\<close>

text \<open>
  \<open>TaskComparator\<close> dereferences both pointers; on a null pointer that is undefined
  behaviour, here \<open>Inl NullDereference\<close>.
\<close>

definition TaskComparator :: "Task option \<Rightarrow> Task option \<Rightarrow> exn + bool" where
  "TaskComparator a b =
     (case (a, b) of
        (Some x, Some y) \<Rightarrow> Inr (getPriority x > getPriority y)
      | _ \<Rightarrow> Inl NullDereference)"

text \<open>
  \<open>pq\<close> is a \<^verbatim>\<open>std::priority_queue\<close> over a vector \<open>c\<close> with \<open>TaskComparator\<close>:
  \<open>push\<close> is \<^verbatim>\<open>c.push_back(x); push_heap(c.begin(), c.end(), comp)\<close>, \<open>pop\<close> is
  \<^verbatim>\<open>pop_heap(c.begin(), c.end(), comp); c.pop_back()\<close> and \<open>top\<close> is \<^verbatim>\<open>c.front()\<close>.
  The heap routines are library code; the source names no toolchain, and the model
  follows the routines of GNU libstdc++ (\<^verbatim>\<open>bits/stl_heap.h\<close>) statement by statement:
  \<open>push_heap_aux\<close> is \<^verbatim>\<open>std::__push_heap\<close>, \<open>adjust_heap\<close> is \<^verbatim>\<open>std::__adjust_heap\<close>
  (\<open>adjust_heap_loop\<close> is its \<^verbatim>\<open>while\<close> loop) and \<open>pop_heap_aux\<close> is
  \<^verbatim>\<open>std::__pop_heap\<close>. An assignment \<^verbatim>\<open>*(first + i) = std::move(*(first + j))\<close> of
  \<^verbatim>\<open>unique_ptr\<close>s puts the pointer at \<open>i\<close> and leaves a null pointer at \<open>j\<close>. The
  comparator is only called where the library calls it, with the arguments in the
  library's order.

  \<^verbatim>\<open>__push_heap(first, holeIndex, topIndex, value, comp)\<close>:
  \<^verbatim>\<open>
    parent = (holeIndex - 1) / 2;
    while (holeIndex > topIndex && comp(first + parent, value)) {
        *(first + holeIndex) = std::move(*(first + parent));
        holeIndex = parent;
        parent = (holeIndex - 1) / 2;
    }
    *(first + holeIndex) = std::move(value);
  \<close>
\<close>

function push_heap_aux ::
  "Task option list \<Rightarrow> nat \<Rightarrow> nat \<Rightarrow> Task option \<Rightarrow> exn + Task option list" where
  "push_heap_aux c holeIndex topIndex v =
     (let parent = (holeIndex - 1) div 2 in
      if holeIndex > topIndex then
        (case TaskComparator (c ! parent) v of
           Inl x \<Rightarrow> Inl x
         | Inr lt \<Rightarrow>
             if lt then push_heap_aux (c[holeIndex := c ! parent, parent := None]) parent topIndex v
             else Inr (c[holeIndex := v]))
      else Inr (c[holeIndex := v]))"
  by pat_completeness auto
termination
  by (relation "measure (\<lambda>(c, holeIndex, topIndex, v). holeIndex)") auto

declare push_heap_aux.simps [simp del]

text \<open>
  \<^verbatim>\<open>push_heap(first, last, comp)\<close>:
  \<^verbatim>\<open>
    value = std::move(*(last - 1));
    __push_heap(first, (last - first) - 1, 0, std::move(value), comp);
  \<close>
  The range is not empty where \<open>push\<close> calls it.
\<close>

definition push_heap :: "Task option list \<Rightarrow> exn + Task option list" where
  "push_heap c =
     (if c = [] then Inr c
      else (let v = c ! (length c - 1)
            in push_heap_aux (c[length c - 1 := None]) (length c - 1) 0 v))"

text \<open>
  \<^verbatim>\<open>__adjust_heap(first, holeIndex, len, value, comp)\<close>:
  \<^verbatim>\<open>
    topIndex = holeIndex;
    secondChild = holeIndex;
    while (secondChild < (len - 1) / 2) {
        secondChild = 2 * (secondChild + 1);
        if (comp(first + secondChild, first + (secondChild - 1)))
            secondChild--;
        *(first + holeIndex) = std::move(*(first + secondChild));
        holeIndex = secondChild;
    }
    if ((len & 1) == 0 && secondChild == (len - 2) / 2) {
        secondChild = 2 * (secondChild + 1);
        *(first + holeIndex) = std::move(*(first + (secondChild - 1)));
        holeIndex = secondChild - 1;
    }
    __push_heap(first, holeIndex, topIndex, std::move(value), comp);
  \<close>
  The indices are signed in the library. With \<open>len = 0\<close> the library's \<open>(len - 2) / 2\<close>
  is \<open>-1\<close>, which no \<open>secondChild\<close> equals, while on natural numbers \<open>len - 2\<close> stops
  at 0: the second test therefore asks for \<open>2 \<le> len\<close> as well. Everywhere else the
  natural-number expressions have the library's values.
\<close>

function adjust_heap_loop ::
  "Task option list \<Rightarrow> nat \<Rightarrow> nat \<Rightarrow> nat \<Rightarrow> exn + Task option list \<times> nat \<times> nat" where
  "adjust_heap_loop c holeIndex secondChild len =
     (if secondChild < (len - 1) div 2 then
        (let secondChild' = 2 * (secondChild + 1) in
         case TaskComparator (c ! secondChild') (c ! (secondChild' - 1)) of
           Inl x \<Rightarrow> Inl x
         | Inr lt \<Rightarrow>
             (let secondChild'' = (if lt then secondChild' - 1 else secondChild')
              in adjust_heap_loop (c[holeIndex := c ! secondChild'', secondChild'' := None])
                   secondChild'' secondChild'' len))
      else Inr (c, holeIndex, secondChild))"
  by pat_completeness auto
termination
  by (relation "measure (\<lambda>(c, holeIndex, secondChild, len). len - secondChild)")
     (auto simp: Let_def split: if_splits)

declare adjust_heap_loop.simps [simp del]

definition adjust_heap ::
  "Task option list \<Rightarrow> nat \<Rightarrow> nat \<Rightarrow> Task option \<Rightarrow> exn + Task option list" where
  "adjust_heap c holeIndex len v =
     (let topIndex = holeIndex in
      case adjust_heap_loop c holeIndex holeIndex len of
        Inl x \<Rightarrow> Inl x
      | Inr (c', holeIndex', secondChild) \<Rightarrow>
          if 2 \<le> len \<and> even len \<and> secondChild = (len - 2) div 2 then
            (let secondChild' = 2 * (secondChild + 1)
             in push_heap_aux (c'[holeIndex' := c' ! (secondChild' - 1), secondChild' - 1 := None])
                  (secondChild' - 1) topIndex v)
          else push_heap_aux c' holeIndex' topIndex v)"

text \<open>
  \<^verbatim>\<open>__pop_heap(first, last, result, comp)\<close>:
  \<^verbatim>\<open>
    value = std::move(*result);
    *result = std::move(*first);
    __adjust_heap(first, 0, last - first, std::move(value), comp);
  \<close>
  and \<^verbatim>\<open>pop_heap(first, last, comp)\<close>:
  \<^verbatim>\<open>
    if (last - first > 1) { --last; __pop_heap(first, last, last, comp); }
  \<close>
  In \<open>pop_heap_aux\<close> the range is the vector up to position \<open>last'\<close> (the library's
  \<open>last\<close>), and \<open>result\<close> is a position; where \<open>pop_heap\<close> calls it, \<open>result\<close> is
  not the first position.
\<close>

definition pop_heap_aux :: "Task option list \<Rightarrow> nat \<Rightarrow> nat \<Rightarrow> exn + Task option list" where
  "pop_heap_aux c last' result =
     (let v = c ! result;
          c' = c[result := None];
          c'' = c'[result := c' ! 0, 0 := None]
      in adjust_heap c'' 0 last' v)"

definition pop_heap :: "Task option list \<Rightarrow> exn + Task option list" where
  "pop_heap c =
     (if length c > 1 then (let last' = length c - 1 in pop_heap_aux c last' last')
      else Inr c)"

definition priority_queue_push :: "Task option list \<Rightarrow> Task option \<Rightarrow> exn + Task option list" where
  "priority_queue_push c x = push_heap (c @ [x])"

definition priority_queue_pop :: "Task option list \<Rightarrow> exn + Task option list" where
  "priority_queue_pop c = (case pop_heap c of Inl x \<Rightarrow> Inl x | Inr c' \<Rightarrow> Inr (butlast c'))"

definition PriorityStrategy_addTask :: "Task option list \<Rightarrow> Task option \<Rightarrow> exn + Task option list" where
  "PriorityStrategy_addTask pq task = priority_queue_push pq task"

text \<open>
  \<open>getNextTask\<close> moves the pointer out of \<open>pq.top()\<close>, which leaves a null pointer at
  the front of the vector, and then pops.
\<close>

definition PriorityStrategy_getNextTask ::
  "Task option list \<Rightarrow> exn + Task option \<times> Task option list" where
  "PriorityStrategy_getNextTask pq =
     (if pq = [] then Inr (None, pq)
      else (let task = hd pq in
            case priority_queue_pop (pq[0 := None]) of
              Inl x \<Rightarrow> Inl x
            | Inr pq' \<Rightarrow> Inr (task, pq')))"

subsection \<open>SchedulingStrategy and Scheduler\<close>

text \<open>
  The abstract \<open>SchedulingStrategy\<close> has the two implementations of the file; a call
  through the base class goes to the one the object is.
\<close>

datatype SchedulingStrategy = FifoStrategy "Task option list" | PriorityStrategy "Task option list"

fun addTask :: "SchedulingStrategy \<Rightarrow> Task option \<Rightarrow> exn + SchedulingStrategy" where
  "addTask (FifoStrategy queue) task = Inr (FifoStrategy (FifoStrategy_addTask queue task))"
| "addTask (PriorityStrategy pq) task =
     (case PriorityStrategy_addTask pq task of
        Inl x \<Rightarrow> Inl x
      | Inr pq' \<Rightarrow> Inr (PriorityStrategy pq'))"

fun getNextTask :: "SchedulingStrategy \<Rightarrow> exn + Task option \<times> SchedulingStrategy" where
  "getNextTask (FifoStrategy queue) =
     (case FifoStrategy_getNextTask queue of (task, queue') \<Rightarrow> Inr (task, FifoStrategy queue'))"
| "getNextTask (PriorityStrategy pq) =
     (case PriorityStrategy_getNextTask pq of
        Inl x \<Rightarrow> Inl x
      | Inr (task, pq') \<Rightarrow> Inr (task, PriorityStrategy pq'))"

fun queued :: "SchedulingStrategy \<Rightarrow> Task option list" where
  "queued (FifoStrategy queue) = queue"
| "queued (PriorityStrategy pq) = pq"

text \<open>\<open>strategy\<close> is a \<^verbatim>\<open>std::unique_ptr<SchedulingStrategy>\<close>, so it can be null.\<close>

record Scheduler =
  strategy :: "SchedulingStrategy option"

definition Scheduler_new :: "SchedulingStrategy option \<Rightarrow> Scheduler" where
  "Scheduler_new s = \<lparr>strategy = s\<rparr>"

definition submit :: "Scheduler \<Rightarrow> Task option \<Rightarrow> exn + Scheduler" where
  "submit s task =
     (case strategy s of
        None \<Rightarrow> Inl NullDereference
      | Some st \<Rightarrow>
          (case addTask st task of
             Inl x \<Rightarrow> Inl x
           | Inr st' \<Rightarrow> Inr (s\<lparr>strategy := Some st'\<rparr>)))"

subsection \<open>Scheduler::run\<close>

text \<open>
  \<open>run\<close> loops while \<open>getNextTask\<close> returns a pointer that is not null. Each turn
  that goes on has taken one entry out of the queue (\<open>pop_heap\<close> keeps the length of
  the vector and \<open>pop\<close> drops the last element), so the loop ends.
\<close>

function run :: "Scheduler \<Rightarrow> ostream \<Rightarrow> exn + Scheduler \<times> ostream" where
  "run s cout =
     (case strategy s of
        None \<Rightarrow> Inl NullDereference
      | Some st \<Rightarrow>
          (case getNextTask st of
             Inl x \<Rightarrow> Inl x
           | Inr (None, st') \<Rightarrow> Inr (s\<lparr>strategy := Some st'\<rparr>, cout)
           | Inr (Some task, st') \<Rightarrow> run (s\<lparr>strategy := Some st'\<rparr>) (execute task cout)))"
  by pat_completeness auto
termination
proof (relation "measure (\<lambda>(s, cout). case strategy s of None \<Rightarrow> 0 | Some st \<Rightarrow> length (queued st))")
  show "wf (measure (\<lambda>(s, cout). case strategy s of None \<Rightarrow> 0 | Some st \<Rightarrow> length (queued st)))"
    by simp
next
  fix s :: Scheduler and cout :: ostream and st x2 task st' and x :: "Task option"
  assume s: "strategy s = Some st" and "getNextTask st = Inr x2" "(x, st') = x2" "x = Some task"
  then have next_task: "getNextTask st = Inr (Some task, st')" by simp
  have push_heap_aux_length: "length c' = length c"
    if "push_heap_aux c h t v = Inr c'" for c h t v c'
    using that
  proof (induction h arbitrary: c rule: less_induct)
    case (less h)
    from less.prems
    have "c' = c[h := v] \<or>
      (t < h \<and> push_heap_aux (c[h := c ! ((h - 1) div 2), (h - 1) div 2 := None])
                 ((h - 1) div 2) t v = Inr c')"
      by (subst (asm) push_heap_aux.simps) (auto simp: Let_def split: if_splits sum.splits)
    then show ?case
    proof
      assume "c' = c[h := v]"
      then show ?thesis by simp
    next
      assume r: "t < h \<and> push_heap_aux (c[h := c ! ((h - 1) div 2), (h - 1) div 2 := None])
                 ((h - 1) div 2) t v = Inr c'"
      then have "(h - 1) div 2 < h" by auto
      from less.IH[OF this conjunct2[OF r]] show ?thesis by simp
    qed
  qed
  have adjust_heap_loop_length: "length c' = length c"
    if "adjust_heap_loop c h sc len = Inr (c', h', sc')" for c h sc len c' h' sc'
    using that
  proof (induction "len - sc" arbitrary: c h sc rule: less_induct)
    case less
    from less.prems
    have "c' = c \<or> (\<exists>ch. sc < ch \<and> ch < len \<and>
        adjust_heap_loop (c[h := c ! ch, ch := None]) ch ch len = Inr (c', h', sc'))"
      by (subst (asm) adjust_heap_loop.simps) (auto simp: Let_def split: if_splits sum.splits)
    then show ?case
    proof
      assume "c' = c"
      then show ?thesis by simp
    next
      assume "\<exists>ch. sc < ch \<and> ch < len \<and>
        adjust_heap_loop (c[h := c ! ch, ch := None]) ch ch len = Inr (c', h', sc')"
      then obtain ch where ch: "sc < ch" "ch < len"
        "adjust_heap_loop (c[h := c ! ch, ch := None]) ch ch len = Inr (c', h', sc')" by blast
      then have "len - ch < len - sc" by simp
      from less.hyps[OF this ch(3)] show ?thesis by simp
    qed
  qed
  have pop_heap_length: "length c' = length c" if "pop_heap c = Inr c'" for c c'
  proof (cases "length c > 1")
    case False
    with that show ?thesis by (simp add: pop_heap_def)
  next
    case True
    define c2 where "c2 = c[length c - 1 := None, length c - 1 := c[length c - 1 := None] ! 0, 0 := None]"
    have len2: "length c2 = length c" by (simp add: c2_def)
    from that True have a: "adjust_heap c2 0 (length c - 1) (c ! (length c - 1)) = Inr c'"
      by (simp add: pop_heap_def pop_heap_aux_def Let_def c2_def)
    then obtain c1 h1 s1 where l: "adjust_heap_loop c2 0 0 (length c - 1) = Inr (c1, h1, s1)"
      by (auto simp: adjust_heap_def Let_def split: sum.splits)
    from adjust_heap_loop_length[OF l] have len1: "length c1 = length c2" .
    from a l have "(\<exists>d h. length d = length c1 \<and> push_heap_aux d h 0 (c ! (length c - 1)) = Inr c')"
      by (auto simp: adjust_heap_def Let_def split: if_splits intro: exI[of _ c1])
         (metis length_list_update)
    then obtain d h where d: "length d = length c1" "push_heap_aux d h 0 (c ! (length c - 1)) = Inr c'"
      by blast
    from push_heap_aux_length[OF d(2)] d(1) len1 len2 show ?thesis by simp
  qed
  have "length (queued st') < length (queued st)"
  proof (cases st)
    case (FifoStrategy queue)
    with next_task show ?thesis
      by (auto simp: FifoStrategy_getNextTask_def Let_def split: if_splits)
  next
    case (PriorityStrategy pq)
    with next_task obtain pq' where pq': "PriorityStrategy_getNextTask pq = Inr (Some task, pq')"
      "st' = PriorityStrategy pq'"
      by (auto split: sum.splits)
    from pq'(1) have ne: "pq \<noteq> []"
      by (auto simp: PriorityStrategy_getNextTask_def split: if_splits)
    with pq'(1) obtain c' where c': "pop_heap (pq[0 := None]) = Inr c'" "pq' = butlast c'"
      by (auto simp: PriorityStrategy_getNextTask_def priority_queue_pop_def Let_def
          split: sum.splits)
    from pop_heap_length[OF c'(1)] have "length c' = length pq" by simp
    with c'(2) ne PriorityStrategy pq'(2) show ?thesis by simp
  qed
  with s
  show "((s\<lparr>strategy := Some st'\<rparr>, execute task cout), (s, cout))
     \<in> measure (\<lambda>(s, cout). case strategy s of None \<Rightarrow> 0 | Some st \<Rightarrow> length (queued st))"
    by simp
qed

declare run.simps [simp del]

text \<open>A caller submitting a list of pointers one call after the other.\<close>

fun submit_all :: "Scheduler \<Rightarrow> Task option list \<Rightarrow> exn + Scheduler" where
  "submit_all s [] = Inr s"
| "submit_all s (task # tasks) =
     (case submit s task of Inl x \<Rightarrow> Inl x | Inr s' \<Rightarrow> submit_all s' tasks)"

subsection \<open>The order a priority queue is kept in\<close>

text \<open>
  \<^verbatim>\<open>std::is_heap\<close> with \<open>TaskComparator\<close>: no element compares greater than its
  parent. A queue is in order when it holds no null pointer and is a heap.
\<close>

definition is_heap :: "Task option list \<Rightarrow> bool" where
  "is_heap c = (\<forall>j \<in> {1..<length c}. TaskComparator (c ! ((j - 1) div 2)) (c ! j) = Inr False)"

definition in_order :: "Task option list \<Rightarrow> bool" where
  "in_order c = (None \<notin> set c \<and> is_heap c)"

text \<open>The priority of the task a pointer that is not null points to.\<close>

abbreviation prio :: "Task option \<Rightarrow> int" where
  "prio x \<equiv> getPriority (the x)"

text \<open>
  A caller of a \<open>PriorityStrategy\<close>: each request is \<open>addTask\<close> with a pointer to a
  task (so not null) or \<open>getNextTask\<close>, whose result the caller takes away.
\<close>

datatype request = Add Task | Next

fun PriorityStrategy_serve :: "request list \<Rightarrow> Task option list \<Rightarrow> exn + Task option list" where
  "PriorityStrategy_serve [] pq = Inr pq"
| "PriorityStrategy_serve (Add task # rs) pq =
     (case PriorityStrategy_addTask pq (Some task) of
        Inl x \<Rightarrow> Inl x
      | Inr pq' \<Rightarrow> PriorityStrategy_serve rs pq')"
| "PriorityStrategy_serve (Next # rs) pq =
     (case PriorityStrategy_getNextTask pq of
        Inl x \<Rightarrow> Inl x
      | Inr (task, pq') \<Rightarrow> PriorityStrategy_serve rs pq')"

section \<open>Facts about the state machines\<close>

subsection \<open>The table\<close>

lemma std_map_of_list_foldl:
  "foldl std_map_insert m kvs k = (case m k of Some v \<Rightarrow> Some v | None \<Rightarrow> map_of kvs k)"
  by (induction kvs arbitrary: m) (auto simp: std_map_insert_def split: option.splits)

lemma std_map_of_list_map_of: "std_map_of_list kvs = map_of kvs"
  by (rule ext) (simp add: std_map_of_list_def std_map_of_list_foldl)

lemma transitionRules_lookup:
  "transitionRules (s, e) =
     (if s = Idle \<and> e = Start then Some Running
      else if s = Running \<and> e = Pause then Some Paused
      else if s = Paused \<and> e = Resume then Some Running
      else if s = Running \<and> e = Stop then Some Stopped
      else if s = Paused \<and> e = Stop then Some Stopped
      else None)"
  by (simp add: transitionRules_def std_map_of_list_map_of transitionRules_init_def)

lemma Sync_rule:
  "rules (currentState m, e) = Some t \<Longrightarrow>
   SyncStateMachine_handleEvent rules e m cout =
     (True, m\<lparr>currentState := t\<rparr>,
      cout @ [Str ''Come in next status ['', Str (strState ! State_to_int (currentState m)),
              Str ''] -> ['', Str (strState ! State_to_int t), Str '']'', Endl])"
  by (simp add: SyncStateMachine_handleEvent_def)

lemma Sync_no_rule:
  "rules (currentState m, e) = None \<Longrightarrow> SyncStateMachine_handleEvent rules e m cout = (False, m, cout)"
  by (simp add: SyncStateMachine_handleEvent_def)

lemma LockFree_no_rule:
  "rules (atomic_currentState m, e) = None \<Longrightarrow>
   LockFreeStateMachine_handleEvent rules spurious e m n = Some (False, m, n)"
  by (subst LockFreeStateMachine_handleEvent.simps) simp

lemma LockFree_rule_now:
  "rules (atomic_currentState m, e) = Some t \<Longrightarrow> \<not> spurious n \<Longrightarrow>
   LockFreeStateMachine_handleEvent rules spurious e m n =
     Some (True, m\<lparr>atomic_currentState := t\<rparr>, Suc n)"
  by (subst LockFreeStateMachine_handleEvent.simps) (simp add: compare_exchange_weak_def)

lemma LockFree_rule_retry:
  "rules (atomic_currentState m, e) = Some t \<Longrightarrow> spurious n \<Longrightarrow>
   LockFreeStateMachine_handleEvent rules spurious e m n =
     LockFreeStateMachine_handleEvent rules spurious e m (Suc n)"
  by (subst LockFreeStateMachine_handleEvent.simps) (simp add: compare_exchange_weak_def)

lemma LockFree_rule_after:
  "rules (atomic_currentState m, e) = Some t \<Longrightarrow> \<not> spurious (n + k) \<Longrightarrow>
   \<exists>j\<le>k. LockFreeStateMachine_handleEvent rules spurious e m n =
     Some (True, m\<lparr>atomic_currentState := t\<rparr>, Suc (n + j))"
proof (induction k arbitrary: n)
  case 0
  then show ?case by (simp add: LockFree_rule_now)
next
  case (Suc k)
  show ?case
  proof (cases "spurious n")
    case False
    with Suc.prems(1) show ?thesis by (auto simp: LockFree_rule_now)
  next
    case True
    from Suc.prems(2) have "\<not> spurious (Suc n + k)" by simp
    from Suc.IH[OF Suc.prems(1) this] obtain j where j: "j \<le> k"
      "LockFreeStateMachine_handleEvent rules spurious e m (Suc n) =
         Some (True, m\<lparr>atomic_currentState := t\<rparr>, Suc (Suc n + j))" by blast
    with True Suc.prems(1) have
      "LockFreeStateMachine_handleEvent rules spurious e m n =
         Some (True, m\<lparr>atomic_currentState := t\<rparr>, Suc (n + Suc j))"
      by (simp add: LockFree_rule_retry)
    with j(1) show ?thesis by (intro exI[of _ "Suc j"]) simp
  qed
qed

lemma LockFree_rule:
  assumes "eventually_succeeds spurious" "rules (atomic_currentState m, e) = Some t"
  shows "\<exists>n'. LockFreeStateMachine_handleEvent rules spurious e m n =
     Some (True, m\<lparr>atomic_currentState := t\<rparr>, n')"
proof -
  from assms(1) obtain k where "\<not> spurious (n + k)"
    unfolding eventually_succeeds_def by blast
  from LockFree_rule_after[of rules m e t spurious n k, OF assms(2) this] show ?thesis by blast
qed

text \<open>Whatever the exchange does, a call that returns has followed the table.\<close>

lemma LockFree_returns:
  assumes "LockFreeStateMachine_handleEvent rules spurious e m n = Some r"
  shows "case rules (atomic_currentState m, e) of
      None \<Rightarrow> fst r = False \<and> fst (snd r) = m
    | Some t \<Rightarrow> fst r = True \<and> fst (snd r) = m\<lparr>atomic_currentState := t\<rparr>"
proof (rule LockFreeStateMachine_handleEvent.raw_induct
    [where P = "\<lambda>rules spurious e m n r. case rules (atomic_currentState m, e) of
      None \<Rightarrow> fst r = False \<and> fst (snd r) = m
    | Some t \<Rightarrow> fst r = True \<and> fst (snd r) = m\<lparr>atomic_currentState := t\<rparr>", OF _ assms])
  fix f :: "TransitionTable \<Rightarrow> (nat \<Rightarrow> bool) \<Rightarrow> Event \<Rightarrow> LockFreeStateMachine \<Rightarrow> nat \<Rightarrow>
     (bool \<times> LockFreeStateMachine \<times> nat) option"
  fix rules :: TransitionTable and spurious :: "nat \<Rightarrow> bool" and e m n r
  assume IH: "\<And>rules spurious e m n r. f rules spurious e m n = Some r \<Longrightarrow>
    (case rules (atomic_currentState m, e) of
      None \<Rightarrow> fst r = False \<and> fst (snd r) = m
    | Some t \<Rightarrow> fst r = True \<and> fst (snd r) = m\<lparr>atomic_currentState := t\<rparr>)"
  assume body: "(let expected = atomic_currentState m in
      case rules (expected, e) of
        None \<Rightarrow> Some (False, m, n)
      | Some desired \<Rightarrow>
          (case compare_exchange_weak (spurious n) (atomic_currentState m) expected desired of
             (ok, cell, expected') \<Rightarrow>
               if ok then Some (True, m\<lparr>atomic_currentState := cell\<rparr>, Suc n)
               else f rules spurious e (m\<lparr>atomic_currentState := cell\<rparr>) (Suc n))) = Some r"
  show "case rules (atomic_currentState m, e) of
      None \<Rightarrow> fst r = False \<and> fst (snd r) = m
    | Some t \<Rightarrow> fst r = True \<and> fst (snd r) = m\<lparr>atomic_currentState := t\<rparr>"
  proof (cases "rules (atomic_currentState m, e)")
    case None
    with body show ?thesis by auto
  next
    case (Some t)
    show ?thesis
    proof (cases "spurious n")
      case True
      with Some body have "f rules spurious e m (Suc n) = Some r"
        by (simp add: compare_exchange_weak_def)
      from IH[OF this] Some show ?thesis by simp
    next
      case False
      with Some body show ?thesis by (auto simp: compare_exchange_weak_def)
    qed
  qed
qed

subsection \<open>Sequences of calls\<close>

lemma Sync_handleEvents_step:
  "SyncStateMachine_handleEvents rules (e # es) m cout =
     (fst (SyncStateMachine_handleEvent rules e m cout) #
        fst (SyncStateMachine_handleEvents rules es (fst (snd (SyncStateMachine_handleEvent rules e m cout)))
               (snd (snd (SyncStateMachine_handleEvent rules e m cout)))),
      snd (SyncStateMachine_handleEvents rules es (fst (snd (SyncStateMachine_handleEvent rules e m cout)))
               (snd (snd (SyncStateMachine_handleEvent rules e m cout)))))"
  by (simp split: prod.splits)

text \<open>The four calls of \<^verbatim>\<open>worker\<close> on a fresh machine all succeed and end in \<open>Stopped\<close>.\<close>

lemma worker_fresh:
  "SyncStateMachine_handleEvents transitionRules [Start, Pause, Resume, Stop] SyncStateMachine_new [] =
     ([True, True, True, True], \<lparr>currentState = Stopped\<rparr>,
      [Str ''Come in next status ['', Str ''Idle'', Str ''] -> ['', Str ''Running'', Str '']'', Endl,
       Str ''Come in next status ['', Str ''Running'', Str ''] -> ['', Str ''Paused'', Str '']'', Endl,
       Str ''Come in next status ['', Str ''Paused'', Str ''] -> ['', Str ''Running'', Str '']'', Endl,
       Str ''Come in next status ['', Str ''Running'', Str ''] -> ['', Str ''Stopped'', Str '']'', Endl])"
  and "fst (worker transitionRules SyncStateMachine_new []) = \<lparr>currentState = Stopped\<rparr>"
  by (simp_all add: worker_def SyncStateMachine_handleEvent_def SyncStateMachine_new_def
      transitionRules_lookup strState_def)

lemma LockFree_matches_Sync_step:
  assumes "eventually_succeeds spurious"
  shows "\<exists>n'. LockFreeStateMachine_handleEvent rules spurious e \<lparr>atomic_currentState = s\<rparr> n =
      Some (fst (SyncStateMachine_handleEvent rules e \<lparr>currentState = s\<rparr> cout),
            \<lparr>atomic_currentState = currentState (fst (snd (SyncStateMachine_handleEvent rules e \<lparr>currentState = s\<rparr> cout)))\<rparr>,
            n')"
proof (cases "rules (s, e)")
  case None
  then show ?thesis by (simp add: LockFree_no_rule Sync_no_rule)
next
  case (Some t)
  with LockFree_rule[OF assms, of rules "\<lparr>atomic_currentState = s\<rparr>" e t n]
  show ?thesis by (simp add: Sync_rule)
qed

lemma Callback_no_rule:
  "rules (cb_currentState m, e) = None \<Longrightarrow>
   SyncStateMachine_Callback_handleEvent rules e m w = (Inr False, m, w, [])"
  by (simp add: SyncStateMachine_Callback_handleEvent_def)

lemma Callback_rule_no_observer:
  "rules (cb_currentState m, e) = Some t \<Longrightarrow> onStateChanged m = None \<Longrightarrow>
   SyncStateMachine_Callback_handleEvent rules e m w =
     (Inr True, m\<lparr>cb_currentState := t\<rparr>, w, [Assign t])"
  by (simp add: SyncStateMachine_Callback_handleEvent_def)

lemma Callback_rule_observer:
  "rules (cb_currentState m, e) = Some t \<Longrightarrow> onStateChanged m = Some f \<Longrightarrow>
   SyncStateMachine_Callback_handleEvent rules e m w =
     ((case fst (f (cb_currentState m) e t w) of None \<Rightarrow> Inr True | Some x \<Rightarrow> Inl x),
      m\<lparr>cb_currentState := t\<rparr>,
      snd (f (cb_currentState m) e t w),
      [Assign t, Invoke (cb_currentState m) e t])"
  by (cases "f (cb_currentState m) e t w"; cases "fst (f (cb_currentState m) e t w)")
     (simp_all add: SyncStateMachine_Callback_handleEvent_def std_function_call_def Let_def)

lemma Callback_state_after:
  "cb_currentState (fst (snd (SyncStateMachine_Callback_handleEvent rules e m w))) =
     (case rules (cb_currentState m, e) of None \<Rightarrow> cb_currentState m | Some t \<Rightarrow> t)"
  by (cases "rules (cb_currentState m, e)"; cases "onStateChanged m")
     (simp_all add: Callback_no_rule Callback_rule_no_observer Callback_rule_observer)

lemma Sync_state_after:
  "currentState (fst (snd (SyncStateMachine_handleEvent rules e m cout))) =
     (case rules (currentState m, e) of None \<Rightarrow> currentState m | Some t \<Rightarrow> t)"
  by (cases "rules (currentState m, e)") (simp_all add: Sync_no_rule Sync_rule)

lemma reachable_after:
  "reachable rules s \<Longrightarrow> reachable rules (case rules (s, e) of None \<Rightarrow> s | Some t \<Rightarrow> t)"
  by (cases "rules (s, e)") (auto intro: reachable_step)

lemma Callback_handleEvents_step:
  "SyncStateMachine_Callback_handleEvents rules (e # es) m w =
     (let r = SyncStateMachine_Callback_handleEvent rules e m w;
          rs = SyncStateMachine_Callback_handleEvents rules es (fst (snd r)) (fst (snd (snd r)))
      in (fst r # fst rs, fst (snd rs), fst (snd (snd rs)), snd (snd (snd r)) @ snd (snd (snd rs))))"
  by (simp add: Let_def split: prod.splits)

lemma Sync_handleEvents_reachable:
  "reachable rules (currentState m) \<Longrightarrow>
   reachable rules (currentState (fst (snd (SyncStateMachine_handleEvents rules es m cout))))"
proof (induction es arbitrary: m cout)
  case Nil
  then show ?case by simp
next
  case (Cons e es)
  have "reachable rules (currentState (fst (snd (SyncStateMachine_handleEvent rules e m cout))))"
    unfolding Sync_state_after using Cons.prems by (rule reachable_after)
  from Cons.IH[OF this] show ?case
    unfolding Sync_handleEvents_step by simp
qed

lemma Callback_handleEvents_reachable:
  "reachable rules (cb_currentState m) \<Longrightarrow>
   reachable rules (cb_currentState (fst (snd (SyncStateMachine_Callback_handleEvents rules es m w))))"
proof (induction es arbitrary: m w)
  case Nil
  then show ?case by simp
next
  case (Cons e es)
  have "reachable rules (cb_currentState (fst (snd (SyncStateMachine_Callback_handleEvent rules e m w))))"
    unfolding Callback_state_after using Cons.prems by (rule reachable_after)
  from Cons.IH[OF this] show ?case
    unfolding Callback_handleEvents_step by (simp add: Let_def)
qed

lemma LockFree_handleEvents_reachable:
  "LockFreeStateMachine_handleEvents rules spurious es m n = Some r \<Longrightarrow>
   reachable rules (atomic_currentState m) \<Longrightarrow>
   reachable rules (atomic_currentState (fst (snd r)))"
proof (induction es arbitrary: m n r)
  case Nil
  then show ?case by auto
next
  case (Cons e es)
  from Cons.prems(1) obtain b m1 n1 where
    1: "LockFreeStateMachine_handleEvent rules spurious e m n = Some (b, m1, n1)"
    by (auto split: option.splits)
  from Cons.prems(1) 1 obtain r1 where
    2: "LockFreeStateMachine_handleEvents rules spurious es m1 n1 = Some r1"
    and r: "fst (snd r) = fst (snd r1)"
    by (auto split: option.splits)
  from LockFree_returns[OF 1]
  have "atomic_currentState m1 = (case rules (atomic_currentState m, e) of None \<Rightarrow> atomic_currentState m | Some t \<Rightarrow> t)"
    by (auto split: option.splits)
  with reachable_after[OF Cons.prems(2), of e] have "reachable rules (atomic_currentState m1)"
    by simp
  from Cons.IH[OF 2 this] r show ?case by simp
qed

lemma LockFree_handleEvents_matches_Sync:
  assumes "eventually_succeeds spurious"
  shows "\<exists>n'. LockFreeStateMachine_handleEvents rules spurious es \<lparr>atomic_currentState = s\<rparr> n =
      Some (fst (SyncStateMachine_handleEvents rules es \<lparr>currentState = s\<rparr> cout),
            \<lparr>atomic_currentState = currentState
               (fst (snd (SyncStateMachine_handleEvents rules es \<lparr>currentState = s\<rparr> cout)))\<rparr>,
            n')"
proof (induction es arbitrary: s n cout)
  case Nil
  show ?case by simp
next
  case (Cons e es)
  let ?r = "SyncStateMachine_handleEvent rules e \<lparr>currentState = s\<rparr> cout"
  obtain n1 where 1: "LockFreeStateMachine_handleEvent rules spurious e \<lparr>atomic_currentState = s\<rparr> n =
      Some (fst ?r, \<lparr>atomic_currentState = currentState (fst (snd ?r))\<rparr>, n1)"
    using LockFree_matches_Sync_step[OF assms] by blast
  have m: "fst (snd ?r) = \<lparr>currentState = currentState (fst (snd ?r))\<rparr>" by simp
  obtain n2 where 2: "LockFreeStateMachine_handleEvents rules spurious es
        \<lparr>atomic_currentState = currentState (fst (snd ?r))\<rparr> n1 =
      Some (fst (SyncStateMachine_handleEvents rules es \<lparr>currentState = currentState (fst (snd ?r))\<rparr> (snd (snd ?r))),
            \<lparr>atomic_currentState = currentState
               (fst (snd (SyncStateMachine_handleEvents rules es \<lparr>currentState = currentState (fst (snd ?r))\<rparr> (snd (snd ?r)))))\<rparr>,
            n2)"
    using Cons.IH by blast
  show ?case
    unfolding Sync_handleEvents_step
    using 1 2 m by (intro exI[of _ n2]) simp
qed

lemma Stopped_no_rule: "transitionRules (Stopped, e) = None"
  by (simp add: transitionRules_lookup)

lemma LockFree_handleEvents_follows_Sync:
  "LockFreeStateMachine_handleEvents rules spurious es \<lparr>atomic_currentState = s\<rparr> n = Some r \<Longrightarrow>
   fst r = fst (SyncStateMachine_handleEvents rules es \<lparr>currentState = s\<rparr> cout) \<and>
   fst (snd r) = \<lparr>atomic_currentState =
      currentState (fst (snd (SyncStateMachine_handleEvents rules es \<lparr>currentState = s\<rparr> cout)))\<rparr>"
proof (induction es arbitrary: s n r cout)
  case Nil
  then show ?case by auto
next
  case (Cons e es)
  let ?m = "\<lparr>atomic_currentState = s\<rparr>"
  let ?q = "SyncStateMachine_handleEvent rules e \<lparr>currentState = s\<rparr> cout"
  from Cons.prems obtain b m1 n1 where
    1: "LockFreeStateMachine_handleEvent rules spurious e ?m n = Some (b, m1, n1)"
    by (auto split: option.splits)
  from Cons.prems 1 obtain r1 where
    2: "LockFreeStateMachine_handleEvents rules spurious es m1 n1 = Some r1"
    and r: "fst r = b # fst r1" "fst (snd r) = fst (snd r1)"
    by (auto split: option.splits)
  from LockFree_returns[OF 1]
  have 3: "b = fst ?q \<and> m1 = \<lparr>atomic_currentState = currentState (fst (snd ?q))\<rparr>"
    by (cases "rules (s, e)") (simp_all add: Sync_no_rule Sync_rule)
  have m: "fst (snd ?q) = \<lparr>currentState = currentState (fst (snd ?q))\<rparr>" by simp
  from 2 3 have "LockFreeStateMachine_handleEvents rules spurious es
      \<lparr>atomic_currentState = currentState (fst (snd ?q))\<rparr> n1 = Some r1" by simp
  from Cons.IH[OF this, of "snd (snd ?q)"] r 3 m show ?case
    unfolding Sync_handleEvents_step by simp
qed

section \<open>Facts about the scheduler\<close>

subsection \<open>Heaps with a hole, by the keys alone\<close>

lemma parent_less: "0 < (j::nat) \<Longrightarrow> (j - 1) div 2 < j"
  by presburger

text \<open>
  On keys alone. The vector has a hole at position \<open>h\<close>: the order holds between every
  parent and child that are both not the hole, and between the parent of the hole and the
  children of the hole.
\<close>

text \<open>Moving the smaller child \<open>ch\<close> of the hole into the hole.\<close>

lemma hole_down:
  fixes f g :: "nat \<Rightarrow> int"
  assumes H1: "\<And>j. 0 < j \<Longrightarrow> j < len \<Longrightarrow> j \<noteq> h \<Longrightarrow> (j - 1) div 2 \<noteq> h \<Longrightarrow>
                 f ((j - 1) div 2) \<le> f j"
    and H2: "\<And>j. 0 < h \<Longrightarrow> 0 < j \<Longrightarrow> j < len \<Longrightarrow> (j - 1) div 2 = h \<Longrightarrow>
                 f ((h - 1) div 2) \<le> f j"
    and ch: "ch = 2 * h + 1 \<or> ch = 2 * h + 2" "ch < len"
    and least: "\<And>j. 0 < j \<Longrightarrow> j < len \<Longrightarrow> (j - 1) div 2 = h \<Longrightarrow> f ch \<le> f j"
    and g: "\<And>k. k \<noteq> ch \<Longrightarrow> g k = (if k = h then f ch else f k)"
    and j: "0 < j" "j < len"
  shows "j \<noteq> ch \<Longrightarrow> (j - 1) div 2 \<noteq> ch \<Longrightarrow> g ((j - 1) div 2) \<le> g j"
    and "(j - 1) div 2 = ch \<Longrightarrow> g ((ch - 1) div 2) \<le> g j"
proof -
  from ch have pch: "(ch - 1) div 2 = i" if "i = h" for i using that by auto
  from ch have chpos: "0 < ch" "h < ch" by auto
  show "g ((j - 1) div 2) \<le> g j" if jch: "j \<noteq> ch" and nch: "(j - 1) div 2 \<noteq> ch"
  proof (cases "j = h")
    case True
    with j have hpos: "0 < h" by simp
    have "(h - 1) div 2 < h" using parent_less[OF hpos] .
    with chpos have ne: "(h - 1) div 2 \<noteq> ch" "(h - 1) div 2 \<noteq> h" by simp_all
    from H2[OF hpos chpos(1) ch(2) pch[OF refl]] have "f ((h - 1) div 2) \<le> f ch" .
    with True ne g[OF ne(1)] g[of h] chpos show ?thesis by simp
  next
    case jh: False
    show ?thesis
    proof (cases "(j - 1) div 2 = h")
      case True
      from least[OF j True] have "f ch \<le> f j" .
      with True jh jch g[OF jch] g[of h] chpos show ?thesis by simp
    next
      case False
      from H1[OF j jh False] have "f ((j - 1) div 2) \<le> f j" .
      with False jh g[OF jch] g[OF nch] show ?thesis by simp
    qed
  qed
  show "g ((ch - 1) div 2) \<le> g j" if pj: "(j - 1) div 2 = ch"
  proof -
    from pj j chpos have jne: "j \<noteq> h" "j \<noteq> ch" using parent_less[of j] by simp_all
    from pj chpos have "(j - 1) div 2 \<noteq> h" by simp
    from H1[OF j jne(1) this] pj have "f ch \<le> f j" by simp
    with pch[OF refl] g[OF jne(2)] jne g[of h] chpos show ?thesis by simp
  qed
qed

text \<open>Moving the parent \<open>p\<close> of the hole into the hole, for a value \<open>v\<close> below it.\<close>

lemma hole_up:
  fixes f g :: "nat \<Rightarrow> int"
  assumes H1: "\<And>j. 0 < j \<Longrightarrow> j < len \<Longrightarrow> j \<noteq> h \<Longrightarrow> (j - 1) div 2 \<noteq> h \<Longrightarrow>
                 f ((j - 1) div 2) \<le> f j"
    and H2: "\<And>j. 0 < j \<Longrightarrow> j < len \<Longrightarrow> (j - 1) div 2 = h \<Longrightarrow> f ((h - 1) div 2) \<le> f j"
    and h: "0 < h" "h < len" and p: "p = (h - 1) div 2"
    and lt: "v < f p"
    and g: "\<And>k. k \<noteq> p \<Longrightarrow> g k = (if k = h then f p else f k)"
    and j: "0 < j" "j < len"
  shows "j \<noteq> p \<Longrightarrow> (j - 1) div 2 \<noteq> p \<Longrightarrow> g ((j - 1) div 2) \<le> g j"
    and "0 < p \<Longrightarrow> (j - 1) div 2 = p \<Longrightarrow> g ((p - 1) div 2) \<le> g j"
    and "(j - 1) div 2 = p \<Longrightarrow> v \<le> g j"
proof -
  from h p have ph: "p < h" using parent_less by simp
  have sib: "f p \<le> f j" if "(j - 1) div 2 = p" "j \<noteq> h"
  proof -
    from that ph have "(j - 1) div 2 \<noteq> h" by simp
    from H1[OF j that(2) this] that(1) show ?thesis by simp
  qed
  show "g ((j - 1) div 2) \<le> g j" if jp: "j \<noteq> p" and np: "(j - 1) div 2 \<noteq> p"
  proof -
    from np p have jh: "j \<noteq> h" by auto
    show ?thesis
    proof (cases "(j - 1) div 2 = h")
      case True
      from H2[OF j True] p have "f p \<le> f j" by simp
      with True jh g[OF jp] g[of h] ph show ?thesis by simp
    next
      case False
      from H1[OF j jh False] have "f ((j - 1) div 2) \<le> f j" .
      with False jh g[OF jp] g[OF np] show ?thesis by simp
    qed
  qed
  show "g ((p - 1) div 2) \<le> g j" if ppos: "0 < p" and pj: "(j - 1) div 2 = p"
  proof -
    have pp: "(p - 1) div 2 < p" using parent_less[OF ppos] .
    with ph have ne: "(p - 1) div 2 \<noteq> p" "(p - 1) div 2 \<noteq> h" "p \<noteq> h" by simp_all
    from ph h have "p < len" by simp
    from H1[OF ppos this ne(3) ne(2)] have le: "f ((p - 1) div 2) \<le> f p" .
    from pj j have jp: "j \<noteq> p" using parent_less[of j] by simp
    show ?thesis
    proof (cases "j = h")
      case True
      with le ne g[OF ne(1)] g[of h] show ?thesis by simp
    next
      case False
      from sib[OF pj False] le have "f ((p - 1) div 2) \<le> f j" by simp
      with False ne g[OF ne(1)] g[OF jp] show ?thesis by simp
    qed
  qed
  show "v \<le> g j" if pj: "(j - 1) div 2 = p"
  proof -
    from pj j have jp: "j \<noteq> p" using parent_less[of j] by simp
    show ?thesis
    proof (cases "j = h")
      case True
      with lt g[of h] ph show ?thesis by simp
    next
      case False
      from sib[OF pj False] lt False g[OF jp] show ?thesis by simp
    qed
  qed
qed

text \<open>Putting the value into the hole.\<close>

lemma hole_fill:
  fixes f g :: "nat \<Rightarrow> int"
  assumes H1: "\<And>j. 0 < j \<Longrightarrow> j < len \<Longrightarrow> j \<noteq> h \<Longrightarrow> (j - 1) div 2 \<noteq> h \<Longrightarrow>
                 f ((j - 1) div 2) \<le> f j"
    and H3: "\<And>j. 0 < j \<Longrightarrow> j < len \<Longrightarrow> (j - 1) div 2 = h \<Longrightarrow> v \<le> f j"
    and top: "h = 0 \<or> f ((h - 1) div 2) \<le> v"
    and g: "\<And>k. g k = (if k = h then v else f k)"
    and j: "0 < j" "j < len"
  shows "g ((j - 1) div 2) \<le> g j"
proof (cases "j = h")
  case True
  with j top have "f ((h - 1) div 2) \<le> v" by simp
  moreover from True j have "(h - 1) div 2 \<noteq> h" using parent_less[of h] by simp
  ultimately show ?thesis using True g by simp
next
  case jh: False
  show ?thesis
  proof (cases "(j - 1) div 2 = h")
    case True
    from H3[OF j True] True jh g show ?thesis by simp
  next
    case False
    from H1[OF j jh False] False jh g show ?thesis by simp
  qed
qed

lemma root_least:
  fixes f :: "nat \<Rightarrow> int"
  assumes "\<And>j. 0 < j \<Longrightarrow> j < len \<Longrightarrow> f ((j - 1) div 2) \<le> f j"
  shows "j < len \<Longrightarrow> f 0 \<le> f j"
proof (induction j rule: less_induct)
  case (less j)
  show ?case
  proof (cases "j = 0")
    case True
    then show ?thesis by simp
  next
    case False
    then have pj: "(j - 1) div 2 < j" using parent_less by simp
    with less.prems have "(j - 1) div 2 < len" by simp
    from less.IH[OF pj this] have 1: "f 0 \<le> f ((j - 1) div 2)" .
    from assms[of j] False less.prems have 2: "f ((j - 1) div 2) \<le> f j" by simp
    from 1 2 show ?thesis by (rule order_trans)
  qed
qed

subsection \<open>\<open>push_heap\<close> and \<open>pop_heap\<close>\<close>

lemma TaskComparator_non_null:
  "a \<noteq> None \<Longrightarrow> b \<noteq> None \<Longrightarrow> TaskComparator a b = Inr (prio b < prio a)"
  by (auto simp: TaskComparator_def)

lemma nth_move:
  "h < length c \<Longrightarrow> s < length c \<Longrightarrow> h \<noteq> s \<Longrightarrow>
   c[h := c ! s, s := None] ! k = (if k = s then None else if k = h then c ! s else c ! k)"
  by (simp add: nth_list_update)

lemma mset_move:
  assumes "h < length c" "s < length c" "c ! h = None"
  shows "mset (c[h := c ! s, s := None]) = mset c"
  using mset_swap[OF assms(2) assms(1)] assms(3) by simp

lemma push_heap_aux_top: "push_heap_aux c 0 0 v = Inr (c[0 := v])"
  by (subst push_heap_aux.simps) simp

lemma push_heap_aux_step:
  assumes "0 < h" "c ! ((h - 1) div 2) \<noteq> None" "v \<noteq> None"
  shows "push_heap_aux c h 0 v =
     (if prio v < prio (c ! ((h - 1) div 2))
      then push_heap_aux (c[h := c ! ((h - 1) div 2), (h - 1) div 2 := None]) ((h - 1) div 2) 0 v
      else Inr (c[h := v]))"
  using assms by (subst push_heap_aux.simps) (simp add: TaskComparator_non_null Let_def)

lemma push_heap_aux_correct:
  assumes "len \<le> length c" "h < len" "c ! h = None" "v \<noteq> None"
    and nn: "\<And>j. j < len \<Longrightarrow> j \<noteq> h \<Longrightarrow> c ! j \<noteq> None"
    and H1: "\<And>j. 0 < j \<Longrightarrow> j < len \<Longrightarrow> j \<noteq> h \<Longrightarrow> (j - 1) div 2 \<noteq> h \<Longrightarrow>
               prio (c ! ((j - 1) div 2)) \<le> prio (c ! j)"
    and H2: "\<And>j. 0 < h \<Longrightarrow> 0 < j \<Longrightarrow> j < len \<Longrightarrow> (j - 1) div 2 = h \<Longrightarrow>
               prio (c ! ((h - 1) div 2)) \<le> prio (c ! j)"
    and H3: "\<And>j. 0 < j \<Longrightarrow> j < len \<Longrightarrow> (j - 1) div 2 = h \<Longrightarrow> prio v \<le> prio (c ! j)"
  shows "\<exists>c'. push_heap_aux c h 0 v = Inr c' \<and> length c' = length c \<and>
           mset c' = add_mset v (mset c - {#None#}) \<and>
           (\<forall>j. len \<le> j \<longrightarrow> c' ! j = c ! j) \<and> (\<forall>j < len. c' ! j \<noteq> None) \<and>
           (\<forall>j. 0 < j \<and> j < len \<longrightarrow> prio (c' ! ((j - 1) div 2)) \<le> prio (c' ! j))"
  using assms
proof (induction h arbitrary: c rule: less_induct)
  case (less h)
  note len = less.prems(1) and h = less.prems(2) and hole = less.prems(3) and v = less.prems(4)
    and nn = less.prems(5) and H1 = less.prems(6) and H2 = less.prems(7) and H3 = less.prems(8)
  from len h have hlen: "h < length c" by simp
  have fill: ?case
    if top: "h = 0 \<or> prio (c ! ((h - 1) div 2)) \<le> prio v"
      and res: "push_heap_aux c h 0 v = Inr (c[h := v])"
  proof -
    let ?c = "c[h := v]"
    have g: "prio (?c ! k) = (if k = h then prio v else prio (c ! k))" for k
      using hlen by (simp add: nth_list_update)
    have "prio (?c ! ((j - 1) div 2)) \<le> prio (?c ! j)" if "0 < j" "j < len" for j
      by (rule hole_fill[where f = "\<lambda>k. prio (c ! k)" and g = "\<lambda>k. prio (?c ! k)"
            and h = h and v = "prio v" and len = len, OF H1 H3 top g that])
    moreover have "?c ! j \<noteq> None" if "j < len" for j
      using that nn[of j] v hlen by (cases "j = h") simp_all
    moreover have "mset ?c = add_mset v (mset c - {#None#})"
      using hlen hole by (simp add: mset_update)
    moreover have "?c ! j = c ! j" if "len \<le> j" for j
      using that h by simp
    ultimately show ?thesis using res by simp
  qed
  show ?case
  proof (cases "h = 0")
    case True
    show ?thesis
      by (rule fill) (simp_all add: True push_heap_aux_top)
  next
    case False
    then have hpos: "0 < h" by simp
    define p where "p = (h - 1) div 2"
    from hpos have ph: "p < h" unfolding p_def by (rule parent_less)
    with h have plen: "p < len" by simp
    with len have plen': "p < length c" by simp
    from ph have pne: "p \<noteq> h" by simp
    from nn[OF plen pne] have pnn: "c ! p \<noteq> None" .
    have step: "push_heap_aux c h 0 v =
        (if prio v < prio (c ! p) then push_heap_aux (c[h := c ! p, p := None]) p 0 v
         else Inr (c[h := v]))"
      using push_heap_aux_step[OF hpos _ v, of c] pnn by (simp add: p_def)
    show ?thesis
    proof (cases "prio v < prio (c ! p)")
      case lt: True
      let ?c = "c[h := c ! p, p := None]"
      have nth: "?c ! k = (if k = p then None else if k = h then c ! p else c ! k)" for k
        using nth_move[OF hlen plen', of k] pne by simp
      have g: "prio (?c ! k) = (if k = h then prio (c ! p) else prio (c ! k))" if "k \<noteq> p" for k
        using that by (simp add: nth)
      have 1: "len \<le> length ?c" using len by simp
      have 3: "?c ! p = None" by (simp add: nth)
      have 5: "?c ! j \<noteq> None" if "j < len" "j \<noteq> p" for j
        using that nn[of j] pnn by (simp add: nth)
      have H2': "prio (c ! ((h - 1) div 2)) \<le> prio (c ! j)"
        if "0 < j" "j < len" "(j - 1) div 2 = h" for j
        using H2[OF hpos that] .
      have 6: "prio (?c ! ((j - 1) div 2)) \<le> prio (?c ! j)"
        if "0 < j" "j < len" "j \<noteq> p" "(j - 1) div 2 \<noteq> p" for j
        by (rule hole_up(1)[where f = "\<lambda>k. prio (c ! k)" and g = "\<lambda>k. prio (?c ! k)"
              and h = h and v = "prio v" and len = len and p = p,
              OF H1 H2' hpos h p_def lt g that])
      have 7: "prio (?c ! ((p - 1) div 2)) \<le> prio (?c ! j)"
        if "0 < p" "0 < j" "j < len" "(j - 1) div 2 = p" for j
        by (rule hole_up(2)[where f = "\<lambda>k. prio (c ! k)" and g = "\<lambda>k. prio (?c ! k)"
              and h = h and v = "prio v" and len = len and p = p,
              OF H1 H2' hpos h p_def lt g that(2,3,1,4)])
      have 8: "prio v \<le> prio (?c ! j)" if "0 < j" "j < len" "(j - 1) div 2 = p" for j
        by (rule hole_up(3)[where f = "\<lambda>k. prio (c ! k)" and g = "\<lambda>k. prio (?c ! k)"
              and h = h and v = "prio v" and len = len and p = p,
              OF H1 H2' hpos h p_def lt g that])
      from less.IH[OF ph 1 plen 3 v 5 6 7 8] obtain c' where c':
        "push_heap_aux ?c p 0 v = Inr c'" "length c' = length ?c"
        "mset c' = add_mset v (mset ?c - {#None#})"
        "\<forall>j. len \<le> j \<longrightarrow> c' ! j = ?c ! j" "\<forall>j < len. c' ! j \<noteq> None"
        "\<forall>j. 0 < j \<and> j < len \<longrightarrow> prio (c' ! ((j - 1) div 2)) \<le> prio (c' ! j)"
        by blast
      have "mset ?c = mset c" by (rule mset_move[OF hlen plen' hole])
      moreover have "?c ! j = c ! j" if "len \<le> j" for j
        using that h plen by (simp add: nth)
      ultimately show ?thesis using c' step lt by simp
    next
      case ge: False
      from ge have "h = 0 \<or> prio (c ! ((h - 1) div 2)) \<le> prio v" by (simp add: p_def)
      moreover from step ge have "push_heap_aux c h 0 v = Inr (c[h := v])" by simp
      ultimately show ?thesis by (rule fill)
    qed
  qed
qed

lemma adjust_heap_loop_stop:
  "(len - 1) div 2 \<le> s \<Longrightarrow> adjust_heap_loop c h s len = Inr (c, h, s)"
  by (subst adjust_heap_loop.simps) simp

lemma adjust_heap_loop_step:
  assumes "s < (len - 1) div 2" "c ! (2 * s + 2) \<noteq> None" "c ! (2 * s + 1) \<noteq> None"
  shows "adjust_heap_loop c h s len =
     (let ch = (if prio (c ! (2 * s + 1)) < prio (c ! (2 * s + 2)) then 2 * s + 1 else 2 * s + 2)
      in adjust_heap_loop (c[h := c ! ch, ch := None]) ch ch len)"
  using assms by (subst adjust_heap_loop.simps) (simp add: TaskComparator_non_null Let_def)

lemma adjust_heap_loop_correct:
  assumes "len \<le> length c" "h < len" "c ! h = None"
    and nn: "\<And>j. j < len \<Longrightarrow> j \<noteq> h \<Longrightarrow> c ! j \<noteq> None"
    and H1: "\<And>j. 0 < j \<Longrightarrow> j < len \<Longrightarrow> j \<noteq> h \<Longrightarrow> (j - 1) div 2 \<noteq> h \<Longrightarrow>
               prio (c ! ((j - 1) div 2)) \<le> prio (c ! j)"
    and H2: "\<And>j. 0 < h \<Longrightarrow> 0 < j \<Longrightarrow> j < len \<Longrightarrow> (j - 1) div 2 = h \<Longrightarrow>
               prio (c ! ((h - 1) div 2)) \<le> prio (c ! j)"
  shows "\<exists>c' h'. adjust_heap_loop c h h len = Inr (c', h', h') \<and> length c' = length c \<and>
           mset c' = mset c \<and> (\<forall>j. len \<le> j \<longrightarrow> c' ! j = c ! j) \<and>
           h' < len \<and> (len - 1) div 2 \<le> h' \<and> c' ! h' = None \<and>
           (\<forall>j. j < len \<and> j \<noteq> h' \<longrightarrow> c' ! j \<noteq> None) \<and>
           (\<forall>j. 0 < j \<and> j < len \<and> j \<noteq> h' \<and> (j - 1) div 2 \<noteq> h' \<longrightarrow>
                prio (c' ! ((j - 1) div 2)) \<le> prio (c' ! j)) \<and>
           (\<forall>j. 0 < h' \<and> 0 < j \<and> j < len \<and> (j - 1) div 2 = h' \<longrightarrow>
                prio (c' ! ((h' - 1) div 2)) \<le> prio (c' ! j))"
  using assms
proof (induction "len - h" arbitrary: c h rule: less_induct)
  case less
  note len = less.prems(1) and h = less.prems(2) and hole = less.prems(3)
    and nn = less.prems(4) and H1 = less.prems(5) and H2 = less.prems(6)
  from len h have hlen: "h < length c" by simp
  show ?case
  proof (cases "h < (len - 1) div 2")
    case False
    then have "adjust_heap_loop c h h len = Inr (c, h, h)"
      by (simp add: adjust_heap_loop_stop)
    with False h hole nn H1 H2 show ?thesis by auto
  next
    case True
    then have r: "2 * h + 2 < len" and l: "2 * h + 1 < len" by auto
    define ch where "ch = (if prio (c ! (2 * h + 1)) < prio (c ! (2 * h + 2))
                           then 2 * h + 1 else 2 * h + 2)"
    have ch: "ch = 2 * h + 1 \<or> ch = 2 * h + 2" "ch < len"
      using r l by (auto simp: ch_def)
    then have hch: "h < ch" by auto
    with ch len have chlen: "ch < length c" by simp
    from hch have ne: "h \<noteq> ch" by simp
    have lnn: "c ! (2 * h + 1) \<noteq> None" and rnn: "c ! (2 * h + 2) \<noteq> None"
      using nn[OF l] nn[OF r] by simp_all
    have step: "adjust_heap_loop c h h len = adjust_heap_loop (c[h := c ! ch, ch := None]) ch ch len"
      using adjust_heap_loop_step[OF True rnn lnn, of h] by (simp add: ch_def Let_def)
    let ?c = "c[h := c ! ch, ch := None]"
    have nth: "?c ! k = (if k = ch then None else if k = h then c ! ch else c ! k)" for k
      using nth_move[OF hlen chlen ne, of k] by simp
    have g: "prio (?c ! k) = (if k = h then prio (c ! ch) else prio (c ! k))" if "k \<noteq> ch" for k
      using that by (simp add: nth)
    have least: "prio (c ! ch) \<le> prio (c ! j)" if "0 < j" "j < len" "(j - 1) div 2 = h" for j
    proof -
      from that have "j = 2 * h + 1 \<or> j = 2 * h + 2" by auto
      then show ?thesis by (auto simp: ch_def)
    qed
    have chnn: "c ! ch \<noteq> None" using nn[OF ch(2)] ne by simp
    have 0: "len - ch < len - h" using hch ch by simp
    have 1: "len \<le> length ?c" using len by simp
    have 3: "?c ! ch = None" by (simp add: nth)
    have 4: "?c ! j \<noteq> None" if "j < len" "j \<noteq> ch" for j
      using that nn[of j] chnn by (simp add: nth)
    have 5: "prio (?c ! ((j - 1) div 2)) \<le> prio (?c ! j)"
      if "0 < j" "j < len" "j \<noteq> ch" "(j - 1) div 2 \<noteq> ch" for j
      by (rule hole_down(1)[where f = "\<lambda>k. prio (c ! k)" and g = "\<lambda>k. prio (?c ! k)"
            and h = h and len = len and ch = ch, OF H1 H2 ch least g that])
    have 6: "prio (?c ! ((ch - 1) div 2)) \<le> prio (?c ! j)"
      if "0 < ch" "0 < j" "j < len" "(j - 1) div 2 = ch" for j
      by (rule hole_down(2)[where f = "\<lambda>k. prio (c ! k)" and g = "\<lambda>k. prio (?c ! k)"
            and h = h and len = len and ch = ch, OF H1 H2 ch least g that(2-)])
    from less.hyps[OF 0 1 ch(2) 3 4 5 6] obtain c' h' where c':
      "adjust_heap_loop ?c ch ch len = Inr (c', h', h')" "length c' = length ?c"
      "mset c' = mset ?c" "\<forall>j. len \<le> j \<longrightarrow> c' ! j = ?c ! j"
      "h' < len" "(len - 1) div 2 \<le> h'" "c' ! h' = None"
      "\<forall>j. j < len \<and> j \<noteq> h' \<longrightarrow> c' ! j \<noteq> None"
      "\<forall>j. 0 < j \<and> j < len \<and> j \<noteq> h' \<and> (j - 1) div 2 \<noteq> h' \<longrightarrow>
                prio (c' ! ((j - 1) div 2)) \<le> prio (c' ! j)"
      "\<forall>j. 0 < h' \<and> 0 < j \<and> j < len \<and> (j - 1) div 2 = h' \<longrightarrow>
                prio (c' ! ((h' - 1) div 2)) \<le> prio (c' ! j)"
      by blast
    have "mset ?c = mset c" by (rule mset_move[OF hlen chlen hole])
    moreover have "\<forall>j. len \<le> j \<longrightarrow> ?c ! j = c ! j"
      using h ch by (simp add: nth)
    ultimately show ?thesis
      using c' step by (intro exI[of _ c'] exI[of _ h']) simp
  qed
qed

lemma adjust_heap_correct:
  assumes len: "len \<le> length c" "0 < len" and hole: "c ! 0 = None" and v: "v \<noteq> None"
    and nn: "\<And>j. j < len \<Longrightarrow> j \<noteq> 0 \<Longrightarrow> c ! j \<noteq> None"
    and H1: "\<And>j. 0 < j \<Longrightarrow> j < len \<Longrightarrow> j \<noteq> 0 \<Longrightarrow> (j - 1) div 2 \<noteq> 0 \<Longrightarrow>
               prio (c ! ((j - 1) div 2)) \<le> prio (c ! j)"
  shows "\<exists>c'. adjust_heap c 0 len v = Inr c' \<and> length c' = length c \<and>
           mset c' = add_mset v (mset c - {#None#}) \<and>
           (\<forall>j. len \<le> j \<longrightarrow> c' ! j = c ! j) \<and> (\<forall>j < len. c' ! j \<noteq> None) \<and>
           (\<forall>j. 0 < j \<and> j < len \<longrightarrow> prio (c' ! ((j - 1) div 2)) \<le> prio (c' ! j))"
proof -
  have H2: "prio (c ! ((0 - 1) div 2)) \<le> prio (c ! j)"
    if "(0::nat) < 0" "0 < j" "j < len" "(j - 1) div 2 = 0" for j
    using that by simp
  from adjust_heap_loop_correct[OF len(1) len(2) hole nn H1 H2] obtain c1 h1 where c1:
    "adjust_heap_loop c 0 0 len = Inr (c1, h1, h1)" "length c1 = length c"
    "mset c1 = mset c" "\<forall>j. len \<le> j \<longrightarrow> c1 ! j = c ! j"
    "h1 < len" "(len - 1) div 2 \<le> h1" "c1 ! h1 = None"
    "\<forall>j. j < len \<and> j \<noteq> h1 \<longrightarrow> c1 ! j \<noteq> None"
    "\<forall>j. 0 < j \<and> j < len \<and> j \<noteq> h1 \<and> (j - 1) div 2 \<noteq> h1 \<longrightarrow>
              prio (c1 ! ((j - 1) div 2)) \<le> prio (c1 ! j)"
    "\<forall>j. 0 < h1 \<and> 0 < j \<and> j < len \<and> (j - 1) div 2 = h1 \<longrightarrow>
              prio (c1 ! ((h1 - 1) div 2)) \<le> prio (c1 ! j)"
    by blast
  have len1: "len \<le> length c1" using len(1) c1(2) by simp
  have nn1: "c1 ! j \<noteq> None" if "j < len" "j \<noteq> h1" for j
    using c1(8) that by simp
  have H1_1: "prio (c1 ! ((j - 1) div 2)) \<le> prio (c1 ! j)"
    if "0 < j" "j < len" "j \<noteq> h1" "(j - 1) div 2 \<noteq> h1" for j
    using c1(9) that by simp
  have H2_1: "prio (c1 ! ((h1 - 1) div 2)) \<le> prio (c1 ! j)"
    if "0 < h1" "0 < j" "j < len" "(j - 1) div 2 = h1" for j
    using c1(10) that by simp
  show ?thesis
  proof (cases "2 \<le> len \<and> even len \<and> h1 = (len - 2) div 2")
    case True
    define ch where "ch = 2 * (h1 + 1) - 1"
    from True have chlast: "ch = len - 1" and ch1: "ch = 2 * h1 + 1"
      unfolding ch_def by presburger+
    from True chlast have ch: "ch = 2 * h1 + 1 \<or> ch = 2 * h1 + 2" "ch < len"
      using ch1 by simp_all
    then have hch: "h1 < ch" by auto
    from c1(5) len1 have h1len: "h1 < length c1" by simp
    from ch len1 have chlen: "ch < length c1" by simp
    from hch have ne: "h1 \<noteq> ch" by simp
    let ?c = "c1[h1 := c1 ! ch, ch := None]"
    have run: "adjust_heap c 0 len v = push_heap_aux ?c ch 0 v"
      using c1(1) True by (simp add: adjust_heap_def Let_def ch_def)
    have nth: "?c ! k = (if k = ch then None else if k = h1 then c1 ! ch else c1 ! k)" for k
      using nth_move[OF h1len chlen ne, of k] by simp
    have g: "prio (?c ! k) = (if k = h1 then prio (c1 ! ch) else prio (c1 ! k))" if "k \<noteq> ch" for k
      using that by (simp add: nth)
    have least: "prio (c1 ! ch) \<le> prio (c1 ! j)" if "0 < j" "j < len" "(j - 1) div 2 = h1" for j
    proof -
      from that have "j = 2 * h1 + 1 \<or> j = 2 * h1 + 2" by auto
      with that(2) chlast ch1 have "j = ch" by auto
      then show ?thesis by simp
    qed
    have chnn: "c1 ! ch \<noteq> None" using nn1[OF ch(2)] ne by simp
    have 1: "len \<le> length ?c" using len1 by simp
    have 3: "?c ! ch = None" by (simp add: nth)
    have 4: "?c ! j \<noteq> None" if "j < len" "j \<noteq> ch" for j
      using that nn1[of j] chnn by (simp add: nth)
    have 5: "prio (?c ! ((j - 1) div 2)) \<le> prio (?c ! j)"
      if "0 < j" "j < len" "j \<noteq> ch" "(j - 1) div 2 \<noteq> ch" for j
      by (rule hole_down(1)[where f = "\<lambda>k. prio (c1 ! k)" and g = "\<lambda>k. prio (?c ! k)"
            and h = h1 and len = len and ch = ch, OF H1_1 H2_1 ch least g that])
    have leaf: "(j - 1) div 2 \<noteq> ch" if "0 < j" "j < len" for j
      using that chlast by auto
    have 6: "prio (?c ! ((ch - 1) div 2)) \<le> prio (?c ! j)"
      if "0 < ch" "0 < j" "j < len" "(j - 1) div 2 = ch" for j
      using leaf[OF that(2,3)] that(4) by simp
    have 7: "prio v \<le> prio (?c ! j)" if "0 < j" "j < len" "(j - 1) div 2 = ch" for j
      using leaf[OF that(1,2)] that(3) by simp
    from push_heap_aux_correct[OF 1 ch(2) 3 v 4 5 6 7] obtain c' where c':
      "push_heap_aux ?c ch 0 v = Inr c'" "length c' = length ?c"
      "mset c' = add_mset v (mset ?c - {#None#})"
      "\<forall>j. len \<le> j \<longrightarrow> c' ! j = ?c ! j" "\<forall>j < len. c' ! j \<noteq> None"
      "\<forall>j. 0 < j \<and> j < len \<longrightarrow> prio (c' ! ((j - 1) div 2)) \<le> prio (c' ! j)"
      by blast
    have "mset ?c = mset c1" by (rule mset_move[OF h1len chlen c1(7)])
    moreover have "\<forall>j. len \<le> j \<longrightarrow> ?c ! j = c1 ! j"
      using c1(5) ch by (simp add: nth)
    ultimately show ?thesis using c' c1(2,3,4) run by simp
  next
    case False
    have run: "adjust_heap c 0 len v = push_heap_aux c1 h1 0 v"
      unfolding adjust_heap_def Let_def c1(1) using False by (simp only: sum.case prod.case if_False)
    have leaf: "(j - 1) div 2 \<noteq> h1" if "0 < j" "j < len" for j
    proof
      assume p: "(j - 1) div 2 = h1"
      with that have j: "j = 2 * h1 + 1 \<or> j = 2 * h1 + 2" by auto
      from c1(6) have "len \<le> 2 * h1 + 2" by auto
      with j that(2) have "len = 2 * h1 + 2" by auto
      then have "2 \<le> len \<and> even len \<and> h1 = (len - 2) div 2" by simp
      with False show False by simp
    qed
    have 6: "prio (c1 ! ((h1 - 1) div 2)) \<le> prio (c1 ! j)"
      if "0 < h1" "0 < j" "j < len" "(j - 1) div 2 = h1" for j
      using leaf[OF that(2,3)] that(4) by simp
    have 7: "prio v \<le> prio (c1 ! j)" if "0 < j" "j < len" "(j - 1) div 2 = h1" for j
      using leaf[OF that(1,2)] that(3) by simp
    from push_heap_aux_correct[OF len1 c1(5) c1(7) v nn1 H1_1 6 7] obtain c' where c':
      "push_heap_aux c1 h1 0 v = Inr c'" "length c' = length c1"
      "mset c' = add_mset v (mset c1 - {#None#})"
      "\<forall>j. len \<le> j \<longrightarrow> c' ! j = c1 ! j" "\<forall>j < len. c' ! j \<noteq> None"
      "\<forall>j. 0 < j \<and> j < len \<longrightarrow> prio (c' ! ((j - 1) div 2)) \<le> prio (c' ! j)"
      by blast
    then show ?thesis using c1(2,3,4) run by simp
  qed
qed

lemma in_order_iff:
  "in_order c \<longleftrightarrow>
     (\<forall>j < length c. c ! j \<noteq> None) \<and>
     (\<forall>j. 0 < j \<and> j < length c \<longrightarrow> prio (c ! ((j - 1) div 2)) \<le> prio (c ! j))"
proof
  assume ord: "in_order c"
  then have nn: "\<forall>j < length c. c ! j \<noteq> None"
    by (auto simp: in_order_def in_set_conv_nth)
  have "prio (c ! ((j - 1) div 2)) \<le> prio (c ! j)" if "0 < j" "j < length c" for j
  proof -
    from that have "(j - 1) div 2 < length c" using parent_less[of j] by simp
    with nn that have "c ! ((j - 1) div 2) \<noteq> None" "c ! j \<noteq> None" by simp_all
    moreover from ord that have "TaskComparator (c ! ((j - 1) div 2)) (c ! j) = Inr False"
      by (simp add: in_order_def is_heap_def)
    ultimately show ?thesis by (simp add: TaskComparator_non_null)
  qed
  with nn show "(\<forall>j < length c. c ! j \<noteq> None) \<and>
     (\<forall>j. 0 < j \<and> j < length c \<longrightarrow> prio (c ! ((j - 1) div 2)) \<le> prio (c ! j))" by simp
next
  assume r: "(\<forall>j < length c. c ! j \<noteq> None) \<and>
     (\<forall>j. 0 < j \<and> j < length c \<longrightarrow> prio (c ! ((j - 1) div 2)) \<le> prio (c ! j))"
  then have "None \<notin> set c" by (auto simp: in_set_conv_nth)
  moreover have "TaskComparator (c ! ((j - 1) div 2)) (c ! j) = Inr False"
    if "j \<in> {1..<length c}" for j
  proof -
    from that have j: "0 < j" "j < length c" by simp_all
    then have "(j - 1) div 2 < length c" using parent_less[of j] by simp
    with r j have "c ! ((j - 1) div 2) \<noteq> None" "c ! j \<noteq> None" by simp_all
    moreover from r have "0 < j \<and> j < length c \<longrightarrow> prio (c ! ((j - 1) div 2)) \<le> prio (c ! j)"
      by (rule conjunct2[THEN spec])
    with j have "prio (c ! ((j - 1) div 2)) \<le> prio (c ! j)" by simp
    ultimately show ?thesis by (simp add: TaskComparator_non_null)
  qed
  ultimately show "in_order c" by (simp add: in_order_def is_heap_def)
qed

lemma in_order_Nil: "in_order []"
  by (simp add: in_order_def is_heap_def)

lemma PriorityStrategy_addTask_in_order:
  assumes "in_order c"
  shows "\<exists>c'. PriorityStrategy_addTask c (Some t) = Inr c' \<and> in_order c' \<and>
           mset c' = add_mset (Some t) (mset c)"
proof -
  let ?c = "c @ [None]"
  let ?n = "length c"
  from assms have c: "\<forall>j < length c. c ! j \<noteq> None"
    "\<forall>j. 0 < j \<and> j < length c \<longrightarrow> prio (c ! ((j - 1) div 2)) \<le> prio (c ! j)"
    by (simp_all add: in_order_iff)
  have call: "PriorityStrategy_addTask c (Some t) = push_heap_aux ?c ?n 0 (Some t)"
    by (simp add: PriorityStrategy_addTask_def priority_queue_push_def push_heap_def Let_def)
  have 1: "length ?c \<le> length ?c" by simp
  have 2: "?n < length ?c" by simp
  have 3: "?c ! ?n = None" by simp
  have 4: "Some t \<noteq> None" by simp
  have 5: "?c ! j \<noteq> None" if "j < length ?c" "j \<noteq> ?n" for j
    using that c(1) by (simp add: nth_append)
  have 6: "prio (?c ! ((j - 1) div 2)) \<le> prio (?c ! j)"
    if "0 < j" "j < length ?c" "j \<noteq> ?n" "(j - 1) div 2 \<noteq> ?n" for j
  proof -
    from that have j: "j < length c" by simp
    with that have "(j - 1) div 2 < length c" using parent_less[of j] by simp
    with j c(2) that show ?thesis by (simp add: nth_append)
  qed
  have leaf: "(j - 1) div 2 \<noteq> ?n" if "0 < j" "j < length ?c" for j
    using that by auto
  have 7: "prio (?c ! ((?n - 1) div 2)) \<le> prio (?c ! j)"
    if "0 < ?n" "0 < j" "j < length ?c" "(j - 1) div 2 = ?n" for j
    using leaf[OF that(2,3)] that(4) by simp
  have 8: "prio (Some t) \<le> prio (?c ! j)"
    if "0 < j" "j < length ?c" "(j - 1) div 2 = ?n" for j
    using leaf[OF that(1,2)] that(3) by simp
  from push_heap_aux_correct[OF 1 2 3 4 5 6 7 8] obtain c' where c':
    "push_heap_aux ?c ?n 0 (Some t) = Inr c'" "length c' = length ?c"
    "mset c' = add_mset (Some t) (mset ?c - {#None#})"
    "\<forall>j < length ?c. c' ! j \<noteq> None"
    "\<forall>j. 0 < j \<and> j < length ?c \<longrightarrow> prio (c' ! ((j - 1) div 2)) \<le> prio (c' ! j)"
    by blast
  then have "in_order c'" by (simp add: in_order_iff)
  with c' call show ?thesis by simp
qed

subsection \<open>The strategies and the scheduler\<close>

lemma PriorityStrategy_getNextTask_Nil: "PriorityStrategy_getNextTask [] = Inr (None, [])"
  by (simp add: PriorityStrategy_getNextTask_def)

lemma in_order_root_least:
  assumes "in_order c" "Some u \<in> set c"
  shows "prio (c ! 0) \<le> getPriority u"
proof -
  from assms(2) obtain j where j: "j < length c" "c ! j = Some u"
    by (auto simp: in_set_conv_nth)
  from assms(1) have "prio (c ! ((k - 1) div 2)) \<le> prio (c ! k)" if "0 < k" "k < length c" for k
    using that by (simp add: in_order_iff)
  from root_least[where f = "\<lambda>k. prio (c ! k)" and len = "length c", OF this j(1)] j(2)
  show ?thesis by simp
qed

lemma PriorityStrategy_getNextTask_in_order:
  assumes ord: "in_order c" and ne: "c \<noteq> []"
  shows "\<exists>t c'. PriorityStrategy_getNextTask c = Inr (Some t, c') \<and> hd c = Some t \<and>
           in_order c' \<and> mset c' = mset c - {#Some t#} \<and>
           (\<forall>u. Some u \<in> set c \<longrightarrow> getPriority t \<le> getPriority u)"
proof -
  from ord have nn: "\<And>j. j < length c \<Longrightarrow> c ! j \<noteq> None"
    and hp: "\<And>j. 0 < j \<Longrightarrow> j < length c \<Longrightarrow> prio (c ! ((j - 1) div 2)) \<le> prio (c ! j)"
    by (simp_all add: in_order_iff)
  from ne have pos: "0 < length c" by simp
  with nn obtain t where t: "c ! 0 = Some t" by blast
  with ne have hd: "hd c = Some t" by (simp add: hd_conv_nth)
  have least: "\<forall>u. Some u \<in> set c \<longrightarrow> getPriority t \<le> getPriority u"
    using in_order_root_least[OF ord] t by simp
  show ?thesis
  proof (cases "length c = 1")
    case True
    with t have c: "c = [Some t]" by (cases c) simp_all
    have "PriorityStrategy_getNextTask c = Inr (Some t, [])"
      unfolding c by (simp add: PriorityStrategy_getNextTask_def priority_queue_pop_def pop_heap_def)
    with hd least c show ?thesis by (simp add: in_order_Nil)
  next
    case False
    define m where "m = length c - 1"
    from False pos have "1 < length c" by linarith
    then have m: "0 < m" "m < length c" "length c = Suc m" by (simp_all add: m_def)
    define v where "v = c ! m"
    let ?c0 = "c[0 := None]"
    let ?c2 = "c[0 := None, m := None]"
    have vnn: "v \<noteq> None" unfolding v_def by (rule nn[OF m(2)])
    have pop: "pop_heap ?c0 = adjust_heap ?c2 0 m v"
    proof -
      from m have "1 < length ?c0" by simp
      moreover from m have "length ?c0 - 1 = m" by simp
      moreover from m have "?c0 ! m = v" by (simp add: v_def)
      moreover from m have "?c0[m := None] ! 0 = None" by simp
      moreover from m have "?c0[m := None, m := None, 0 := None] = ?c2"
        by (simp add: list_update_swap)
      ultimately show ?thesis by (simp add: pop_heap_def pop_heap_aux_def Let_def)
    qed
    have 1: "m \<le> length ?c2" using m by simp
    have 2: "?c2 ! 0 = None" using m by simp
    have 3: "?c2 ! j \<noteq> None" if "j < m" "j \<noteq> 0" for j
      using that m nn[of j] by simp
    have 4: "prio (?c2 ! ((j - 1) div 2)) \<le> prio (?c2 ! j)"
      if "0 < j" "j < m" "j \<noteq> 0" "(j - 1) div 2 \<noteq> 0" for j
    proof -
      from that have "(j - 1) div 2 < m" using parent_less[of j] by simp
      with that m hp[of j] show ?thesis by simp
    qed
    from adjust_heap_correct[OF 1 m(1) 2 vnn 3 4] obtain c' where c':
      "adjust_heap ?c2 0 m v = Inr c'" "length c' = length ?c2"
      "mset c' = add_mset v (mset ?c2 - {#None#})"
      "\<forall>j. m \<le> j \<longrightarrow> c' ! j = ?c2 ! j" "\<forall>j < m. c' ! j \<noteq> None"
      "\<forall>j. 0 < j \<and> j < m \<longrightarrow> prio (c' ! ((j - 1) div 2)) \<le> prio (c' ! j)"
      by blast
    have len: "length (butlast c') = m" using c'(2) m by simp
    have nth: "butlast c' ! j = c' ! j" if "j < m" for j
      using that len by (simp add: nth_butlast)
    have ord': "in_order (butlast c')"
      unfolding in_order_iff len
    proof (intro conjI allI impI)
      fix j assume "j < m"
      with c'(5) show "butlast c' ! j \<noteq> None" by (simp add: nth)
    next
      fix j assume j: "0 < j \<and> j < m"
      then have "(j - 1) div 2 < m" using parent_less[of j] by simp
      with j c'(6) show "prio (butlast c' ! ((j - 1) div 2)) \<le> prio (butlast c' ! j)"
        by (simp add: nth)
    qed
    have "c' \<noteq> []" using c'(2) m by auto
    moreover have "last c' = None"
    proof -
      from \<open>c' \<noteq> []\<close> have "last c' = c' ! m" using c'(2) m by (simp add: last_conv_nth)
      also have "\<dots> = ?c2 ! m" using c'(4) by simp
      also have "\<dots> = None" using m by simp
      finally show ?thesis .
    qed
    ultimately have "c' = butlast c' @ [None]" by (metis append_butlast_last_id)
    then have "mset c' = add_mset None (mset (butlast c'))"
      by (metis mset.simps(1) mset.simps(2) mset_append union_mset_add_mset_right add.right_neutral)
    moreover have "mset c' = mset ?c0"
    proof -
      have "v \<in># mset ?c0"
      proof -
        from m have "?c0 ! m \<in> set ?c0" by (intro nth_mem) simp
        with m show ?thesis by (simp add: v_def)
      qed
      moreover have "mset ?c2 = add_mset None (mset ?c0 - {#v#})"
        using m by (simp add: mset_update v_def)
      ultimately show ?thesis using c'(3) by simp
    qed
    moreover have "mset ?c0 = add_mset None (mset c - {#Some t#})"
      using pos t by (simp add: mset_update)
    ultimately have ms: "mset (butlast c') = mset c - {#Some t#}" by simp
    have "PriorityStrategy_getNextTask c = Inr (Some t, butlast c')"
      using ne hd pop c'(1)
      by (simp add: PriorityStrategy_getNextTask_def priority_queue_pop_def Let_def)
    with hd ord' ms least show ?thesis by blast
  qed
qed

lemma PriorityStrategy_serve_in_order:
  "in_order pq \<Longrightarrow> \<exists>pq'. PriorityStrategy_serve rs pq = Inr pq' \<and> in_order pq'"
proof (induction rs arbitrary: pq)
  case Nil
  then show ?case by simp
next
  case (Cons r rs)
  show ?case
  proof (cases r)
    case (Add task)
    from PriorityStrategy_addTask_in_order[OF Cons.prems, of task] obtain pq1 where
      1: "PriorityStrategy_addTask pq (Some task) = Inr pq1" "in_order pq1" by blast
    from Cons.IH[OF 1(2)] 1(1) Add show ?thesis by simp
  next
    case Next
    show ?thesis
    proof (cases "pq = []")
      case True
      with Cons.IH[OF Cons.prems] Next show ?thesis
        by (simp add: PriorityStrategy_getNextTask_Nil)
    next
      case False
      from PriorityStrategy_getNextTask_in_order[OF Cons.prems False] obtain t pq1 where
        1: "PriorityStrategy_getNextTask pq = Inr (Some t, pq1)" "in_order pq1" by blast
      from Cons.IH[OF 1(2)] 1(1) Next show ?thesis by simp
    qed
  qed
qed

lemma run_FifoStrategy:
  "run \<lparr>strategy = Some (FifoStrategy (map Some tasks))\<rparr> cout =
     Inr (\<lparr>strategy = Some (FifoStrategy [])\<rparr>, foldl (\<lambda>out task. execute task out) cout tasks)"
proof (induction tasks arbitrary: cout)
  case Nil
  show ?case by (subst run.simps) (simp add: FifoStrategy_getNextTask_def)
next
  case (Cons task tasks)
  show ?case
    by (subst run.simps) (simp add: FifoStrategy_getNextTask_def Cons.IH)
qed

lemma submit_all_FifoStrategy:
  "submit_all \<lparr>strategy = Some (FifoStrategy queue)\<rparr> tasks =
     Inr \<lparr>strategy = Some (FifoStrategy (queue @ tasks))\<rparr>"
  by (induction tasks arbitrary: queue) (simp_all add: submit_def FifoStrategy_addTask_def)

text \<open>
  Tasks of equal priority: which task the pop leaves at the front is decided by the
  library's steps, here on three and on five queued tasks, and \<open>run\<close> with a
  \<open>PriorityStrategy\<close> on the three tasks of \<^verbatim>\<open>main\<close>.
\<close>

lemma PriorityStrategy_getNextTask_ties:
  "PriorityStrategy_getNextTask [Some (PrintTask ''A''), Some (PrintTask ''B''), Some (PrintTask ''C'')] =
     Inr (Some (PrintTask ''A''), [Some (PrintTask ''B''), Some (PrintTask ''C'')])"
  "PriorityStrategy_getNextTask
     [Some (PrintTask ''a''), Some (PrintTask ''b''), Some (PrintTask ''c''),
      Some (PrintTask ''d''), Some (PrintTask ''e'')] =
     Inr (Some (PrintTask ''a''),
          [Some (PrintTask ''c''), Some (PrintTask ''b''), Some (PrintTask ''e''), Some (PrintTask ''d'')])"
  by code_simp+

lemma run_PriorityStrategy_main:
  "submit_all (Scheduler_new (Some (PriorityStrategy [])))
     [Some (PriorityTask ''Low'' 3), Some (PriorityTask ''Urgent'' 1), Some (PriorityTask ''Medium'' 2)] =
     Inr \<lparr>strategy = Some (PriorityStrategy
       [Some (PriorityTask ''Urgent'' 1), Some (PriorityTask ''Low'' 3), Some (PriorityTask ''Medium'' 2)])\<rparr>"
  "run \<lparr>strategy = Some (PriorityStrategy
       [Some (PriorityTask ''Urgent'' 1), Some (PriorityTask ''Low'' 3), Some (PriorityTask ''Medium'' 2)])\<rparr> [] =
     Inr (\<lparr>strategy = Some (PriorityStrategy [])\<rparr>,
          [Str ''[P'', Num 1, Str '']'', Str ''Urgent'', Endl,
           Str ''[P'', Num 2, Str '']'', Str ''Medium'', Endl,
           Str ''[P'', Num 3, Str '']'', Str ''Low'', Endl])"
  by code_simp+

section \<open>The claims\<close>

text \<open>
  C1. For every state and event, \<open>SyncStateMachine::handleEvent\<close> returns true and sets
  \<open>currentState\<close> to the table's target state when the table has a rule for
  (\<open>currentState\<close>, event); when it has none, the call returns false and
  \<open>getCurrentState\<close> reads the same state as before.
\<close>

theorem C1_SyncStateMachine_handleEvent:
  "(rules (currentState m, e) = Some t \<longrightarrow>
      fst (SyncStateMachine_handleEvent rules e m cout) = True \<and>
      currentState (fst (snd (SyncStateMachine_handleEvent rules e m cout))) = t) \<and>
   (rules (currentState m, e) = None \<longrightarrow>
      fst (SyncStateMachine_handleEvent rules e m cout) = False \<and>
      SyncStateMachine_getCurrentState (fst (snd (SyncStateMachine_handleEvent rules e m cout)))
        = SyncStateMachine_getCurrentState m)"
  by (simp add: Sync_rule Sync_no_rule)

theorem C1_SyncStateMachine_handleEvent_witness:
  "transitionRules (currentState SyncStateMachine_new, Start) = Some Running \<and>
   fst (SyncStateMachine_handleEvent transitionRules Start SyncStateMachine_new []) = True \<and>
   currentState (fst (snd (SyncStateMachine_handleEvent transitionRules Start SyncStateMachine_new []))) = Running \<and>
   transitionRules (currentState SyncStateMachine_new, Resume) = None \<and>
   fst (SyncStateMachine_handleEvent transitionRules Resume SyncStateMachine_new []) = False \<and>
   SyncStateMachine_getCurrentState (fst (snd (SyncStateMachine_handleEvent transitionRules Resume SyncStateMachine_new []))) = Idle"
  using C1_SyncStateMachine_handleEvent [of transitionRules SyncStateMachine_new Start Running "[]"]
    C1_SyncStateMachine_handleEvent [of transitionRules SyncStateMachine_new Resume Running "[]"]
  by (simp add: transitionRules_lookup SyncStateMachine_new_def SyncStateMachine_getCurrentState_def)

text \<open>
  C2. Run by one thread, \<open>LockFreeStateMachine::handleEvent\<close> is equivalent to
  \<open>SyncStateMachine::handleEvent\<close>: for every starting state and every list of events,
  a run of the calls that returns gives the same list of boolean results and the same
  final state, and the run returns whenever \<^verbatim>\<open>compare_exchange_weak\<close> does not fail
  spuriously for ever.
\<close>

theorem C2_LockFree_equivalent_to_Sync:
  "(\<forall>r. LockFreeStateMachine_handleEvents rules spurious es \<lparr>atomic_currentState = s\<rparr> n = Some r \<longrightarrow>
      fst r = fst (SyncStateMachine_handleEvents rules es \<lparr>currentState = s\<rparr> cout) \<and>
      LockFreeStateMachine_getCurrentState (fst (snd r)) =
        SyncStateMachine_getCurrentState
          (fst (snd (SyncStateMachine_handleEvents rules es \<lparr>currentState = s\<rparr> cout)))) \<and>
   (eventually_succeeds spurious \<longrightarrow>
      (\<exists>r. LockFreeStateMachine_handleEvents rules spurious es \<lparr>atomic_currentState = s\<rparr> n = Some r))"
proof (intro conjI allI impI)
  fix r
  assume "LockFreeStateMachine_handleEvents rules spurious es \<lparr>atomic_currentState = s\<rparr> n = Some r"
  from LockFree_handleEvents_follows_Sync[OF this, of cout]
  show "fst r = fst (SyncStateMachine_handleEvents rules es \<lparr>currentState = s\<rparr> cout)"
    and "LockFreeStateMachine_getCurrentState (fst (snd r)) =
        SyncStateMachine_getCurrentState
          (fst (snd (SyncStateMachine_handleEvents rules es \<lparr>currentState = s\<rparr> cout)))"
    by (simp_all add: LockFreeStateMachine_getCurrentState_def SyncStateMachine_getCurrentState_def)
next
  assume "eventually_succeeds spurious"
  from LockFree_handleEvents_matches_Sync[OF this, of rules es s n cout]
  show "\<exists>r. LockFreeStateMachine_handleEvents rules spurious es \<lparr>atomic_currentState = s\<rparr> n = Some r"
    by blast
qed

theorem C2_LockFree_equivalent_to_Sync_witness:
  "eventually_succeeds (\<lambda>n. n = 0) \<and>
   LockFreeStateMachine_handleEvents transitionRules (\<lambda>n. n = 0)
       [Resume, Start, Pause, Resume, Stop, Start] \<lparr>atomic_currentState = Idle\<rparr> 0 =
     Some ([False, True, True, True, True, False], \<lparr>atomic_currentState = Stopped\<rparr>, 5) \<and>
   fst (SyncStateMachine_handleEvents transitionRules
       [Resume, Start, Pause, Resume, Stop, Start] \<lparr>currentState = Idle\<rparr> []) =
     [False, True, True, True, True, False] \<and>
   SyncStateMachine_getCurrentState (fst (snd (SyncStateMachine_handleEvents transitionRules
       [Resume, Start, Pause, Resume, Stop, Start] \<lparr>currentState = Idle\<rparr> []))) = Stopped"
proof -
  have fair: "eventually_succeeds (\<lambda>n. n = 0)"
    unfolding eventually_succeeds_def by (auto intro: exI[of _ 1])
  have run: "LockFreeStateMachine_handleEvents transitionRules (\<lambda>n. n = 0)
       [Resume, Start, Pause, Resume, Stop, Start] \<lparr>atomic_currentState = Idle\<rparr> 0 =
     Some ([False, True, True, True, True, False], \<lparr>atomic_currentState = Stopped\<rparr>, 5)"
    by code_simp
  from C2_LockFree_equivalent_to_Sync [of transitionRules "\<lambda>n. n = 0"
      "[Resume, Start, Pause, Resume, Stop, Start]" Idle 0 "[]"] run
  have "[False, True, True, True, True, False] = fst (SyncStateMachine_handleEvents transitionRules
       [Resume, Start, Pause, Resume, Stop, Start] \<lparr>currentState = Idle\<rparr> []) \<and>
     Stopped = SyncStateMachine_getCurrentState (fst (snd (SyncStateMachine_handleEvents transitionRules
       [Resume, Start, Pause, Resume, Stop, Start] \<lparr>currentState = Idle\<rparr> [])))"
    by (simp add: LockFreeStateMachine_getCurrentState_def)
  with fair run show ?thesis by simp
qed

text \<open>
  C3. For each of the three machines and every list of \<open>handleEvent\<close> calls on a
  freshly constructed machine, the state held afterwards is reachable from \<open>Idle\<close> by
  rules of the table. For the lock-free machine this holds of every run that returns,
  and every run returns when the exchange does not fail spuriously for ever.
\<close>

theorem C3_reachability_invariant:
  "reachable rules (SyncStateMachine_getCurrentState
      (fst (snd (SyncStateMachine_handleEvents rules es SyncStateMachine_new cout)))) \<and>
   (\<forall>r. LockFreeStateMachine_handleEvents rules spurious es LockFreeStateMachine_new n = Some r \<longrightarrow>
      reachable rules (LockFreeStateMachine_getCurrentState (fst (snd r)))) \<and>
   (eventually_succeeds spurious \<longrightarrow>
      (\<exists>r. LockFreeStateMachine_handleEvents rules spurious es LockFreeStateMachine_new n = Some r)) \<and>
   reachable rules (cb_currentState
      (fst (snd (SyncStateMachine_Callback_handleEvents rules es
         (setCallback callback SyncStateMachine_Callback_new) w))))"
proof (intro conjI allI impI)
  show "reachable rules (SyncStateMachine_getCurrentState
      (fst (snd (SyncStateMachine_handleEvents rules es SyncStateMachine_new cout))))"
    unfolding SyncStateMachine_getCurrentState_def
    by (rule Sync_handleEvents_reachable) (simp add: SyncStateMachine_new_def reachable_Idle)
next
  fix r
  assume "LockFreeStateMachine_handleEvents rules spurious es LockFreeStateMachine_new n = Some r"
  then show "reachable rules (LockFreeStateMachine_getCurrentState (fst (snd r)))"
    unfolding LockFreeStateMachine_getCurrentState_def
    by (rule LockFree_handleEvents_reachable) (simp add: LockFreeStateMachine_new_def reachable_Idle)
next
  assume "eventually_succeeds spurious"
  from LockFree_handleEvents_matches_Sync[OF this, of rules es Idle n "[]"]
  show "\<exists>r. LockFreeStateMachine_handleEvents rules spurious es LockFreeStateMachine_new n = Some r"
    unfolding LockFreeStateMachine_new_def by blast
next
  show "reachable rules (cb_currentState
      (fst (snd (SyncStateMachine_Callback_handleEvents rules es
         (setCallback callback SyncStateMachine_Callback_new) w))))"
    by (rule Callback_handleEvents_reachable)
       (simp add: setCallback_def SyncStateMachine_Callback_new_def reachable_Idle)
qed

theorem C3_reachability_invariant_witness:
  "eventually_succeeds (\<lambda>n. n = 0) \<and>
   LockFreeStateMachine_handleEvents transitionRules (\<lambda>n. n = 0) [Start, Pause]
     LockFreeStateMachine_new 0 = Some ([True, True], \<lparr>atomic_currentState = Paused\<rparr>, 3) \<and>
   reachable transitionRules Paused"
proof -
  have fair: "eventually_succeeds (\<lambda>n. n = 0)"
    unfolding eventually_succeeds_def by (auto intro: exI[of _ 1])
  have run: "LockFreeStateMachine_handleEvents transitionRules (\<lambda>n. n = 0) [Start, Pause]
     LockFreeStateMachine_new 0 = Some ([True, True], \<lparr>atomic_currentState = Paused\<rparr>, 3)"
    by code_simp
  from C3_reachability_invariant [of transitionRules "[Start, Pause]" "[]" "\<lambda>n. n = 0" 0 None "()"] run
  have "reachable transitionRules
     (LockFreeStateMachine_getCurrentState (fst (snd ([True, True], \<lparr>atomic_currentState = Paused\<rparr>, 3))))"
    by simp
  with fair run show ?thesis
    by (simp add: LockFreeStateMachine_getCurrentState_def)
qed

text \<open>
  C4. The table holds exactly the five rules \<open>Idle\<close> to \<open>Running\<close> on \<open>Start\<close>,
  \<open>Running\<close> to \<open>Paused\<close> on \<open>Pause\<close>, \<open>Paused\<close> to \<open>Running\<close> on \<open>Resume\<close>,
  \<open>Running\<close> to \<open>Stopped\<close> on \<open>Stop\<close> and \<open>Paused\<close> to \<open>Stopped\<close> on \<open>Stop\<close>. For
  every other pair of state and event, \<open>handleEvent\<close> of each machine returns false and
  leaves the machine as it was.
\<close>

theorem C4_transition_table:
  "(transitionRules (s, e) = Some t \<longleftrightarrow>
      (s, e, t) \<in> {(Idle, Start, Running), (Running, Pause, Paused), (Paused, Resume, Running),
                    (Running, Stop, Stopped), (Paused, Stop, Stopped)}) \<and>
   ((s, e) \<notin> {(Idle, Start), (Running, Pause), (Paused, Resume), (Running, Stop), (Paused, Stop)} \<longrightarrow>
      SyncStateMachine_handleEvent transitionRules e \<lparr>currentState = s\<rparr> cout =
        (False, \<lparr>currentState = s\<rparr>, cout) \<and>
      LockFreeStateMachine_handleEvent transitionRules spurious e \<lparr>atomic_currentState = s\<rparr> n =
        Some (False, \<lparr>atomic_currentState = s\<rparr>, n) \<and>
      SyncStateMachine_Callback_handleEvent transitionRules e
          \<lparr>cb_currentState = s, onStateChanged = callback\<rparr> w =
        (Inr False, \<lparr>cb_currentState = s, onStateChanged = callback\<rparr>, w, []))"
proof (intro conjI impI)
  show "transitionRules (s, e) = Some t \<longleftrightarrow>
      (s, e, t) \<in> {(Idle, Start, Running), (Running, Pause, Paused), (Paused, Resume, Running),
                    (Running, Stop, Stopped), (Paused, Stop, Stopped)}"
    by (auto simp: transitionRules_lookup split: if_splits)
next
  assume "(s, e) \<notin> {(Idle, Start), (Running, Pause), (Paused, Resume), (Running, Stop), (Paused, Stop)}"
  then have none: "transitionRules (s, e) = None"
    by (simp add: transitionRules_lookup)
  from none show "SyncStateMachine_handleEvent transitionRules e \<lparr>currentState = s\<rparr> cout =
        (False, \<lparr>currentState = s\<rparr>, cout)"
    by (simp add: Sync_no_rule)
  from none show "LockFreeStateMachine_handleEvent transitionRules spurious e \<lparr>atomic_currentState = s\<rparr> n =
        Some (False, \<lparr>atomic_currentState = s\<rparr>, n)"
    by (simp add: LockFree_no_rule)
  from none show "SyncStateMachine_Callback_handleEvent transitionRules e
          \<lparr>cb_currentState = s, onStateChanged = callback\<rparr> w =
        (Inr False, \<lparr>cb_currentState = s, onStateChanged = callback\<rparr>, w, [])"
    by (simp add: Callback_no_rule)
qed

theorem C4_transition_table_witness:
  "transitionRules (Paused, Stop) = Some Stopped \<and>
   (Idle, Resume) \<notin> {(Idle, Start), (Running, Pause), (Paused, Resume), (Running, Stop), (Paused, Stop)} \<and>
   SyncStateMachine_handleEvent transitionRules Resume \<lparr>currentState = Idle\<rparr> [] =
     (False, \<lparr>currentState = Idle\<rparr>, []) \<and>
   LockFreeStateMachine_handleEvent transitionRules (\<lambda>n. True) Resume \<lparr>atomic_currentState = Idle\<rparr> 0 =
     Some (False, \<lparr>atomic_currentState = Idle\<rparr>, 0) \<and>
   SyncStateMachine_Callback_handleEvent transitionRules Resume
       \<lparr>cb_currentState = Idle, onStateChanged = None\<rparr> () =
     (Inr False, \<lparr>cb_currentState = Idle, onStateChanged = None\<rparr>, (), [])"
  using C4_transition_table [of Paused Stop Stopped "[]" "\<lambda>n. True" 0 None "()"]
    C4_transition_table [of Idle Resume Idle "[]" "\<lambda>n. True" 0 None "()"]
  by simp

text \<open>
  C5. \<open>Stopped\<close> is terminal: on each of the three machines, once the state is
  \<open>Stopped\<close>, every later \<open>handleEvent\<close> call returns false, whatever the event, and
  the state stays \<open>Stopped\<close>.
\<close>

theorem C5_Stopped_is_terminal:
  "SyncStateMachine_handleEvents transitionRules es \<lparr>currentState = Stopped\<rparr> cout =
     (replicate (length es) False, \<lparr>currentState = Stopped\<rparr>, cout) \<and>
   LockFreeStateMachine_handleEvents transitionRules spurious es \<lparr>atomic_currentState = Stopped\<rparr> n =
     Some (replicate (length es) False, \<lparr>atomic_currentState = Stopped\<rparr>, n) \<and>
   SyncStateMachine_Callback_handleEvents transitionRules es
       \<lparr>cb_currentState = Stopped, onStateChanged = callback\<rparr> w =
     (replicate (length es) (Inr False), \<lparr>cb_currentState = Stopped, onStateChanged = callback\<rparr>, w, [])"
proof (induction es)
  case Nil
  show ?case by simp
next
  case (Cons e es)
  have 1: "SyncStateMachine_handleEvent transitionRules e \<lparr>currentState = Stopped\<rparr> cout =
      (False, \<lparr>currentState = Stopped\<rparr>, cout)"
    by (simp add: Sync_no_rule Stopped_no_rule)
  have 2: "LockFreeStateMachine_handleEvent transitionRules spurious e \<lparr>atomic_currentState = Stopped\<rparr> n =
      Some (False, \<lparr>atomic_currentState = Stopped\<rparr>, n)"
    by (simp add: LockFree_no_rule Stopped_no_rule)
  have 3: "SyncStateMachine_Callback_handleEvent transitionRules e
       \<lparr>cb_currentState = Stopped, onStateChanged = callback\<rparr> w =
     (Inr False, \<lparr>cb_currentState = Stopped, onStateChanged = callback\<rparr>, w, [])"
    by (simp add: Callback_no_rule Stopped_no_rule)
  from Cons.IH 1 2 3 show ?case by simp
qed

theorem C5_Stopped_is_terminal_witness:
  "SyncStateMachine_handleEvents transitionRules [Start, Stop, Resume] \<lparr>currentState = Stopped\<rparr> [] =
     ([False, False, False], \<lparr>currentState = Stopped\<rparr>, []) \<and>
   LockFreeStateMachine_handleEvents transitionRules (\<lambda>n. True) [Start, Stop, Resume]
       \<lparr>atomic_currentState = Stopped\<rparr> 0 =
     Some ([False, False, False], \<lparr>atomic_currentState = Stopped\<rparr>, 0) \<and>
   SyncStateMachine_Callback_handleEvents transitionRules [Start, Stop, Resume]
       \<lparr>cb_currentState = Stopped, onStateChanged = None\<rparr> () =
     ([Inr False, Inr False, Inr False], \<lparr>cb_currentState = Stopped, onStateChanged = None\<rparr>, (), [])"
  using C5_Stopped_is_terminal [of "[Start, Stop, Resume]" "[]" "\<lambda>n. True" 0 None "()"]
  by (simp add: numeral_3_eq_3)

text \<open>
  C6, as the claim states it, names \<open>getCurrentState\<close> among the operations of
  \<open>SyncStateMachine_Callback\<close>. \<open>SyncStateMachine\<close> declares it; the callback class
  declares \<open>setCallback\<close> and \<open>handleEvent\<close> only.
\<close>

theorem C6_counterexample:
  "getCurrentState \<in> set SyncStateMachine_public \<and>
   getCurrentState \<notin> set SyncStateMachine_Callback_public"
  by (simp add: SyncStateMachine_public_def SyncStateMachine_Callback_public_def)

text \<open>
  C6, amended. \<open>SyncStateMachine_Callback::handleEvent\<close> leaves the machine in the
  state \<open>SyncStateMachine::handleEvent\<close> would, and whenever it returns, it returns the
  same \<open>bool\<close>. With no rule it returns false and neither writes nor calls the observer.
  With a rule it first assigns the new state, then, if an observer is registered, calls
  it with (old state, event, new state); it returns true when the observer returns, and
  when the observer throws, the exception leaves the call with the new state kept.
\<close>

theorem C6_Callback_handleEvent:
  "cb_currentState (fst (snd (SyncStateMachine_Callback_handleEvent rules e m w))) =
     currentState (fst (snd (SyncStateMachine_handleEvent rules e \<lparr>currentState = cb_currentState m\<rparr> cout))) \<and>
   (\<forall>b. fst (SyncStateMachine_Callback_handleEvent rules e m w) = Inr b \<longrightarrow>
      b = fst (SyncStateMachine_handleEvent rules e \<lparr>currentState = cb_currentState m\<rparr> cout)) \<and>
   (rules (cb_currentState m, e) = None \<longrightarrow>
      SyncStateMachine_Callback_handleEvent rules e m w = (Inr False, m, w, [])) \<and>
   (rules (cb_currentState m, e) = Some t \<longrightarrow> onStateChanged m = None \<longrightarrow>
      SyncStateMachine_Callback_handleEvent rules e m w =
        (Inr True, m\<lparr>cb_currentState := t\<rparr>, w, [Assign t])) \<and>
   (rules (cb_currentState m, e) = Some t \<longrightarrow> onStateChanged m = Some f \<longrightarrow>
      f (cb_currentState m) e t w = (None, w') \<longrightarrow>
      SyncStateMachine_Callback_handleEvent rules e m w =
        (Inr True, m\<lparr>cb_currentState := t\<rparr>, w', [Assign t, Invoke (cb_currentState m) e t])) \<and>
   (rules (cb_currentState m, e) = Some t \<longrightarrow> onStateChanged m = Some f \<longrightarrow>
      f (cb_currentState m) e t w = (Some x, w') \<longrightarrow>
      SyncStateMachine_Callback_handleEvent rules e m w =
        (Inl x, m\<lparr>cb_currentState := t\<rparr>, w', [Assign t, Invoke (cb_currentState m) e t]))"
proof (intro conjI impI allI)
  show "cb_currentState (fst (snd (SyncStateMachine_Callback_handleEvent rules e m w))) =
     currentState (fst (snd (SyncStateMachine_handleEvent rules e \<lparr>currentState = cb_currentState m\<rparr> cout)))"
    by (simp add: Callback_state_after Sync_state_after split: option.splits)
next
  fix b
  assume "fst (SyncStateMachine_Callback_handleEvent rules e m w) = Inr b"
  then show "b = fst (SyncStateMachine_handleEvent rules e \<lparr>currentState = cb_currentState m\<rparr> cout)"
    by (cases "rules (cb_currentState m, e)"; cases "onStateChanged m")
       (auto simp: Callback_no_rule Callback_rule_no_observer Callback_rule_observer
          Sync_no_rule Sync_rule split: option.splits)
qed (simp_all add: Callback_no_rule Callback_rule_no_observer Callback_rule_observer)

theorem C6_Callback_handleEvent_witness:
  "transitionRules (Idle, Start) = Some Running \<and>
   SyncStateMachine_Callback_handleEvent transitionRules Start
     (setCallback (Some (\<lambda>a e b w. (None, w @ [(a, e, b)]))) SyncStateMachine_Callback_new) [] =
     (Inr True,
      \<lparr>cb_currentState = Running, onStateChanged = Some (\<lambda>a e b w. (None, w @ [(a, e, b)]))\<rparr>,
      [(Idle, Start, Running)],
      [Assign Running, Invoke Idle Start Running])"
  using C6_Callback_handleEvent [of transitionRules Start
      "setCallback (Some (\<lambda>a e b w. (None, w @ [(a, e, b)]))) SyncStateMachine_Callback_new"
      "[]" "[]" Running "\<lambda>a e b w. (None, w @ [(a, e, b)])" "[(Idle, Start, Running)]"]
  by (simp add: transitionRules_lookup setCallback_def SyncStateMachine_Callback_new_def)

text \<open>
  C7, as the claim states it, has construction fail on a repeated key. The map's
  constructor returns a table that holds the first of the two rules, and \<open>handleEvent\<close>
  follows it.
\<close>

theorem C7_counterexample:
  "\<not> distinct (map fst [((Idle, Start), Running), ((Idle, Start), Stopped)]) \<and>
   std_map_construct [((Idle, Start), Running), ((Idle, Start), Stopped)] =
     Inr [(Idle, Start) \<mapsto> Running] \<and>
   SyncStateMachine_handleEvent [(Idle, Start) \<mapsto> Running] Start SyncStateMachine_new [] =
     (True, \<lparr>currentState = Running\<rparr>,
      [Str ''Come in next status ['', Str ''Idle'', Str ''] -> ['', Str ''Running'', Str '']'', Endl])"
  by (simp add: std_map_construct_def std_map_of_list_def std_map_insert_def
      SyncStateMachine_handleEvent_def SyncStateMachine_new_def strState_def)

text \<open>
  C7, amended. Construction from any list of rules succeeds; the table maps each key to
  the target of the first rule listed for it, so \<open>handleEvent\<close> returns true exactly
  when the list has a rule for (\<open>currentState\<close>, event) and then moves to the target of
  the first such rule. The list the program ships has no repeated key.
\<close>

theorem C7_table_construction:
  "std_map_construct kvs = Inr (map_of kvs) \<and>
   distinct (map fst transitionRules_init) \<and>
   transitionRules = map_of transitionRules_init \<and>
   fst (SyncStateMachine_handleEvent (map_of kvs) e m cout) = (map_of kvs (currentState m, e) \<noteq> None) \<and>
   currentState (fst (snd (SyncStateMachine_handleEvent (map_of kvs) e m cout))) =
     (case map_of kvs (currentState m, e) of None \<Rightarrow> currentState m | Some t \<Rightarrow> t)"
  by (cases "map_of kvs (currentState m, e)")
     (simp_all add: std_map_construct_def std_map_of_list_map_of transitionRules_init_def
        transitionRules_def Sync_no_rule Sync_rule)

theorem C7_table_construction_witness:
  "std_map_construct [((Idle, Start), Running), ((Idle, Start), Stopped)] =
     Inr (map_of [((Idle, Start), Running), ((Idle, Start), Stopped)]) \<and>
   fst (SyncStateMachine_handleEvent (map_of [((Idle, Start), Running), ((Idle, Start), Stopped)])
          Start SyncStateMachine_new []) \<and>
   currentState (fst (snd (SyncStateMachine_handleEvent
          (map_of [((Idle, Start), Running), ((Idle, Start), Stopped)])
          Start SyncStateMachine_new []))) = Running"
  using C7_table_construction [of "[((Idle, Start), Running), ((Idle, Start), Stopped)]"
      Start SyncStateMachine_new "[]"]
  by (simp add: SyncStateMachine_new_def)

text \<open>
  C8. With no callback registered, \<open>SyncStateMachine_Callback::handleEvent\<close> on a
  matching rule assigns the new state and returns true: the observer is not called, so
  no \<^verbatim>\<open>bad_function_call\<close> arises.
\<close>

theorem C8_no_callback_registered:
  "onStateChanged m = None \<Longrightarrow> rules (cb_currentState m, e) = Some t \<Longrightarrow>
   SyncStateMachine_Callback_handleEvent rules e m w =
     (Inr True, m\<lparr>cb_currentState := t\<rparr>, w, [Assign t])"
  by (simp add: Callback_rule_no_observer)

theorem C8_no_callback_registered_witness:
  "onStateChanged (SyncStateMachine_Callback_new :: unit SyncStateMachine_Callback) = None \<and>
   transitionRules (cb_currentState (SyncStateMachine_Callback_new :: unit SyncStateMachine_Callback), Start) = Some Running \<and>
   SyncStateMachine_Callback_handleEvent transitionRules Start SyncStateMachine_Callback_new () =
     (Inr True, \<lparr>cb_currentState = Running, onStateChanged = None\<rparr>, (), [Assign Running])"
proof -
  have 1: "onStateChanged (SyncStateMachine_Callback_new :: unit SyncStateMachine_Callback) = None"
    by (simp add: SyncStateMachine_Callback_new_def)
  have 2: "transitionRules (cb_currentState (SyncStateMachine_Callback_new :: unit SyncStateMachine_Callback), Start) = Some Running"
    by (simp add: SyncStateMachine_Callback_new_def transitionRules_lookup)
  show ?thesis
    using 1 2 C8_no_callback_registered
      [of "SyncStateMachine_Callback_new :: unit SyncStateMachine_Callback" transitionRules Start Running "()", OF 1 2]
    by (simp add: SyncStateMachine_Callback_new_def)
qed

text \<open>
  C9, as the claim states it, has \<open>FifoStrategy::getNextTask\<close> return a null pointer
  only from an empty queue, and \<open>run\<close> execute every submitted task. \<open>submit\<close> takes
  any \<^verbatim>\<open>std::unique_ptr<Task>\<close>, also a null one: a queue that holds just a null
  pointer is not empty and \<open>getNextTask\<close> returns null from it, and \<open>run\<close> stops at a
  null pointer with the tasks behind it still queued.
\<close>

theorem C9_counterexample:
  "FifoStrategy_addTask [] None \<noteq> [] \<and>
   fst (FifoStrategy_getNextTask (FifoStrategy_addTask [] None)) = None \<and>
   submit_all (Scheduler_new (Some (FifoStrategy [])))
       [Some (PrintTask ''First''), None, Some (PrintTask ''Second'')] =
     Inr \<lparr>strategy = Some (FifoStrategy [Some (PrintTask ''First''), None, Some (PrintTask ''Second'')])\<rparr> \<and>
   run \<lparr>strategy = Some (FifoStrategy [Some (PrintTask ''First''), None, Some (PrintTask ''Second'')])\<rparr> [] =
     Inr (\<lparr>strategy = Some (FifoStrategy [Some (PrintTask ''Second'')])\<rparr>,
          [Str ''Executing: '', Str ''First'', Endl])"
proof -
  have "run \<lparr>strategy = Some (FifoStrategy [Some (PrintTask ''First''), None, Some (PrintTask ''Second'')])\<rparr> [] =
     Inr (\<lparr>strategy = Some (FifoStrategy [Some (PrintTask ''Second'')])\<rparr>,
          [Str ''Executing: '', Str ''First'', Endl])"
    by (subst run.simps, simp add: FifoStrategy_getNextTask_def)
       (subst run.simps, simp add: FifoStrategy_getNextTask_def)
  then show ?thesis
    by (simp add: FifoStrategy_addTask_def FifoStrategy_getNextTask_def Scheduler_new_def
        submit_def)
qed

text \<open>
  C9, amended. \<open>FifoStrategy::getNextTask\<close> returns a null pointer when its queue is
  empty or the earliest-added entry is a null pointer, so, on a queue without null
  pointers, exactly when the queue is empty; from a queue that is not empty it removes
  and returns the earliest-added entry. For every finite list of tasks submitted through
  pointers that are not null, \<open>Scheduler::run\<close> with a \<open>FifoStrategy\<close> returns, has
  executed each task once, in the order of submission, and leaves the queue empty.
\<close>

theorem C9_FifoStrategy_run:
  "(fst (FifoStrategy_getNextTask queue) = None \<longleftrightarrow> queue = [] \<or> hd queue = None) \<and>
   (None \<notin> set queue \<longrightarrow> (fst (FifoStrategy_getNextTask queue) = None \<longleftrightarrow> queue = [])) \<and>
   FifoStrategy_getNextTask (FifoStrategy_addTask (first # queue) task) = (first, queue @ [task]) \<and>
   FifoStrategy_getNextTask (FifoStrategy_addTask [] task) = (task, []) \<and>
   submit_all (Scheduler_new (Some (FifoStrategy []))) (map Some tasks) =
     Inr \<lparr>strategy = Some (FifoStrategy (map Some tasks))\<rparr> \<and>
   run \<lparr>strategy = Some (FifoStrategy (map Some tasks))\<rparr> cout =
     Inr (\<lparr>strategy = Some (FifoStrategy [])\<rparr>, foldl (\<lambda>out task. execute task out) cout tasks)"
proof (intro conjI impI)
  show "fst (FifoStrategy_getNextTask queue) = None \<longleftrightarrow> queue = [] \<or> hd queue = None"
    by (simp add: FifoStrategy_getNextTask_def)
next
  assume "None \<notin> set queue"
  then have "queue \<noteq> [] \<Longrightarrow> hd queue \<noteq> None" by (metis hd_in_set)
  then show "fst (FifoStrategy_getNextTask queue) = None \<longleftrightarrow> queue = []"
    by (auto simp: FifoStrategy_getNextTask_def)
next
  show "submit_all (Scheduler_new (Some (FifoStrategy []))) (map Some tasks) =
     Inr \<lparr>strategy = Some (FifoStrategy (map Some tasks))\<rparr>"
    by (simp add: Scheduler_new_def submit_all_FifoStrategy)
next
  show "run \<lparr>strategy = Some (FifoStrategy (map Some tasks))\<rparr> cout =
     Inr (\<lparr>strategy = Some (FifoStrategy [])\<rparr>, foldl (\<lambda>out task. execute task out) cout tasks)"
    by (rule run_FifoStrategy)
qed (simp_all add: FifoStrategy_getNextTask_def FifoStrategy_addTask_def)

theorem C9_FifoStrategy_run_witness:
  "None \<notin> set [Some (PrintTask ''First''), Some (PrintTask ''Second'')] \<and>
   fst (FifoStrategy_getNextTask [Some (PrintTask ''First''), Some (PrintTask ''Second'')]) \<noteq> None \<and>
   submit_all (Scheduler_new (Some (FifoStrategy [])))
       [Some (PrintTask ''First''), Some (PrintTask ''Second''), Some (PrintTask ''Third'')] =
     Inr \<lparr>strategy = Some (FifoStrategy
       [Some (PrintTask ''First''), Some (PrintTask ''Second''), Some (PrintTask ''Third'')])\<rparr> \<and>
   run \<lparr>strategy = Some (FifoStrategy
       [Some (PrintTask ''First''), Some (PrintTask ''Second''), Some (PrintTask ''Third'')])\<rparr> [] =
     Inr (\<lparr>strategy = Some (FifoStrategy [])\<rparr>,
          [Str ''Executing: '', Str ''First'', Endl,
           Str ''Executing: '', Str ''Second'', Endl,
           Str ''Executing: '', Str ''Third'', Endl])"
  using C9_FifoStrategy_run [where queue = "[Some (PrintTask ''First''), Some (PrintTask ''Second'')]"
      and first = None and task = None
      and tasks = "[PrintTask ''First'', PrintTask ''Second'', PrintTask ''Third'']" and cout = "[]"]
  by simp

text \<open>
  C10, as the claim states it, has \<open>PriorityStrategy::getNextTask\<close> return a null
  pointer only from an empty queue. \<open>addTask\<close> takes a null pointer into an empty queue
  without comparing it; the queue then is not empty and \<open>getNextTask\<close> returns null.
\<close>

theorem C10_counterexample:
  "PriorityStrategy_addTask [] None = Inr [None] \<and>
   [None :: Task option] \<noteq> [] \<and>
   PriorityStrategy_getNextTask [None] = Inr (None, [])"
  by (simp add: PriorityStrategy_addTask_def priority_queue_push_def push_heap_def
      push_heap_aux_top PriorityStrategy_getNextTask_def priority_queue_pop_def pop_heap_def)

text \<open>
  C10, amended. On a queue built from the empty one by \<open>addTask\<close> calls with pointers
  that are not null and by \<open>getNextTask\<close> calls, no call fails, and
  \<open>PriorityStrategy::getNextTask\<close> returns a null pointer exactly when the queue is
  empty; otherwise it removes and returns one queued task whose \<open>getPriority()\<close> is
  least among all queued tasks.
\<close>

theorem C10_PriorityStrategy_getNextTask:
  "\<exists>pq. PriorityStrategy_serve rs [] = Inr pq \<and>
     (pq = [] \<longrightarrow> PriorityStrategy_getNextTask pq = Inr (None, [])) \<and>
     (pq \<noteq> [] \<longrightarrow>
        (\<exists>t pq'. PriorityStrategy_getNextTask pq = Inr (Some t, pq') \<and>
           Some t \<in> set pq \<and> mset pq' = mset pq - {#Some t#} \<and>
           (\<forall>u. Some u \<in> set pq \<longrightarrow> getPriority t \<le> getPriority u)))"
proof -
  from PriorityStrategy_serve_in_order[OF in_order_Nil, of rs] obtain pq where
    pq: "PriorityStrategy_serve rs [] = Inr pq" "in_order pq" by blast
  have "\<exists>t pq'. PriorityStrategy_getNextTask pq = Inr (Some t, pq') \<and>
           Some t \<in> set pq \<and> mset pq' = mset pq - {#Some t#} \<and>
           (\<forall>u. Some u \<in> set pq \<longrightarrow> getPriority t \<le> getPriority u)" if ne: "pq \<noteq> []"
  proof -
    from PriorityStrategy_getNextTask_in_order[OF pq(2) ne] obtain t pq' where
      t: "PriorityStrategy_getNextTask pq = Inr (Some t, pq')" "hd pq = Some t"
        "mset pq' = mset pq - {#Some t#}"
        "\<forall>u. Some u \<in> set pq \<longrightarrow> getPriority t \<le> getPriority u" by blast
    from t(2) ne have "Some t \<in> set pq" by (metis hd_in_set)
    with t show ?thesis by blast
  qed
  with pq(1) show ?thesis
    by (auto simp: PriorityStrategy_getNextTask_Nil)
qed

theorem C10_PriorityStrategy_getNextTask_witness:
  "PriorityStrategy_serve
     [Add (PriorityTask ''Low'' 3), Add (PriorityTask ''Urgent'' 1), Add (PriorityTask ''Medium'' 2)] [] =
     Inr [Some (PriorityTask ''Urgent'' 1), Some (PriorityTask ''Low'' 3), Some (PriorityTask ''Medium'' 2)] \<and>
   PriorityStrategy_getNextTask
     [Some (PriorityTask ''Urgent'' 1), Some (PriorityTask ''Low'' 3), Some (PriorityTask ''Medium'' 2)] =
     Inr (Some (PriorityTask ''Urgent'' 1),
          [Some (PriorityTask ''Medium'' 2), Some (PriorityTask ''Low'' 3)])"
proof -
  have 1: "PriorityStrategy_serve
     [Add (PriorityTask ''Low'' 3), Add (PriorityTask ''Urgent'' 1), Add (PriorityTask ''Medium'' 2)] [] =
     Inr [Some (PriorityTask ''Urgent'' 1), Some (PriorityTask ''Low'' 3), Some (PriorityTask ''Medium'' 2)]"
    by code_simp
  have 2: "PriorityStrategy_getNextTask
     [Some (PriorityTask ''Urgent'' 1), Some (PriorityTask ''Low'' 3), Some (PriorityTask ''Medium'' 2)] =
     Inr (Some (PriorityTask ''Urgent'' 1),
          [Some (PriorityTask ''Medium'' 2), Some (PriorityTask ''Low'' 3)])"
    by code_simp
  show ?thesis
    using 1 2 C10_PriorityStrategy_getNextTask [of
      "[Add (PriorityTask ''Low'' 3), Add (PriorityTask ''Urgent'' 1), Add (PriorityTask ''Medium'' 2)]"]
    by simp
qed

end
